theory Spec2Isabelle
  imports Complex_Main "HOL-Library.Multiset"
begin

section \<open>The load generator dashboards of k8s-sample-app\<close>

text \<open>
  The repository holds two versions of the React component \<open>App\<close>:
  \<^item> the dashboard of \<^verbatim>\<open>src/unnamed/part_001\<close>: it sends GET requests, logs a request as
    pending when it is sent, keeps a chart series and the last 200 entries;
  \<^item> the component of \<^verbatim>\<open>src/frontend/src/App.tsx\<close>: it sends POST requests, logs a
    request only when it has settled and keeps the last 50 entries. The names of its
    model carry the suffix \<open>_post\<close>.

  JavaScript numbers are modelled by exact numbers: the counters are natural numbers,
  latencies and epoch times are integers, clock readings and quotients are rationals.
  The rounding of IEEE doubles is outside the model.

  \<open>sendRequest\<close> is an \<^verbatim>\<open>async\<close> function. Its body up to \<^verbatim>\<open>await fetch(...)\<close> runs at
  the timer tick; the rest runs once, when the promise settles, with the variables the
  call has captured. The state of the model therefore holds, next to the React state,
  the suspended calls (\<open>inflight\<close>); \<open>callNo\<close> tells them apart. Every React
  updater \<^verbatim>\<open>setX(prev => ...)\<close> is applied to the current state, in the order of the
  calls.
\<close>

subsection \<open>JavaScript primitives\<close>

text \<open>\<^verbatim>\<open>Array.prototype.slice(start)\<close>: a negative \<open>start\<close> counts from the end.\<close>

definition slice :: "int \<Rightarrow> 'a list \<Rightarrow> 'a list" where
  "slice start xs =
     (let len = int (length xs);
          k = (if start < 0 then max (len + start) 0 else min start len)
      in drop (nat k) xs)"

text \<open>\<^verbatim>\<open>Math.round\<close>: the nearest integer, a tie goes up.\<close>

definition Math_round :: "rat \<Rightarrow> int" where
  "Math_round x = \<lfloor>x + 1 / 2\<rfloor>"

text \<open>A non-negative integer inside a template literal: its decimal digits.\<close>

definition digit_char :: "nat \<Rightarrow> char" where
  "digit_char d = ''0123456789'' ! d"

fun decimal :: "nat \<Rightarrow> string" where
  "decimal n = (if n < 10 then [digit_char n] else decimal (n div 10) @ [digit_char (n mod 10)])"

declare decimal.simps [simp del]

text \<open>
  \<^verbatim>\<open>Number.prototype.toFixed(f)\<close>, as the language standard gives it: the sign and the
  magnitude are split; \<open>n\<close> is the integer for which \<open>n / 10^f\<close> is nearest to the
  magnitude, the larger one of two; the digits of \<open>n\<close> are padded on the left with
  zeros to \<open>f + 1\<close> digits and a point goes before the last \<open>f\<close> digits. A magnitude
  of \<open>10^21\<close> or more is printed by the conversion of numbers to strings (exponent
  notation), the parameter \<open>toStr\<close>.
\<close>

definition toFixed :: "(rat \<Rightarrow> string) \<Rightarrow> rat \<Rightarrow> nat \<Rightarrow> string" where
  "toFixed toStr x f =
     (let s = (if x < 0 then ''-'' else []);
          x' = (if x < 0 then - x else x)
      in if 10 ^ 21 \<le> x' then s @ toStr x'
         else
           (let n = nat \<lfloor>x' * 10 ^ f + 1 / 2\<rfloor>;
                m = decimal n
            in if f = 0 then s @ m
               else
                 (let m' = (if length m \<le> f
                            then replicate (f + 1 - length m) (CHR ''0'') @ m else m);
                      k = length m'
                  in s @ take (k - f) m' @ ''.'' @ drop (k - f) m')))"

text \<open>
  What \<^verbatim>\<open>fetch\<close> hands back. \<open>ok\<close> is the \<^verbatim>\<open>ok\<close> attribute of a response: the
  status is in the range 200 to 299.
\<close>

record Response =
  status_Response :: nat
  statusText :: string

definition ok :: "Response \<Rightarrow> bool" where
  "ok res = (200 \<le> status_Response res \<and> status_Response res \<le> 299)"

text \<open>
  A thrown value is an instance of \<^verbatim>\<open>Error\<close>, which carries a message, or any other
  value, which carries none.
\<close>

datatype Thrown = ErrorInstance string | NotAnError

text \<open>\<^verbatim>\<open>error instanceof Error ? error.message : "Network Error"\<close>\<close>

fun errorMessage :: "Thrown \<Rightarrow> string" where
  "errorMessage (ErrorInstance m) = m"
| "errorMessage NotAnError = ''Network Error''"

subsection \<open>The dashboard (GET requests, pending entries, chart)\<close>

datatype ViewMode = Dashboard | Network

datatype Status = Success | Error | Pending

record Stat =
  total_Stat :: nat
  success :: nat
  error :: nat
  totalLatency :: int

record Log =
  id_Log :: string
  timestamp :: string
  startTime :: int
  status :: Status
  statusCode :: "nat option"
  message :: string
  latency :: "int option"

record ChartData =
  time :: string
  latency_ChartData :: int

text \<open>The variables a suspended call of \<open>sendRequest\<close> has captured.\<close>

record Call =
  callNo :: nat
  requestId :: string
  startTime_Call :: rat
  timestamp_Call :: string

record App =
  viewMode :: ViewMode
  intervalMs :: int
  isRunning :: bool
  stats :: Stat
  logs :: "Log list"
  chartData :: "ChartData list"
  inflight :: "Call list"
  nextCall :: nat

definition initial :: App where
  "initial =
     \<lparr>viewMode = Dashboard, intervalMs = 1000, isRunning = False,
      stats = \<lparr>total_Stat = 0, success = 0, error = 0, totalLatency = 0\<rparr>,
      logs = [], chartData = [], inflight = [], nextCall = 0\<rparr>"

datatype Outcome = Resolved Response | Rejected Thrown

definition pendingLog :: "string \<Rightarrow> int \<Rightarrow> string \<Rightarrow> Log" where
  "pendingLog rid startTimeDate ts =
     \<lparr>id_Log = rid, timestamp = ts, startTime = startTimeDate, status = Pending,
      statusCode = None, message = ''Pending...'', latency = None\<rparr>"

text \<open>
  \<open>sendRequest\<close> up to the \<^verbatim>\<open>await\<close>: \<open>rid\<close> is the result of
  \<^verbatim>\<open>crypto.randomUUID()\<close>, \<open>now\<close> of \<^verbatim>\<open>performance.now()\<close>, \<open>dateNow\<close> of
  \<^verbatim>\<open>Date.now()\<close>, \<open>ts\<close> of \<^verbatim>\<open>new Date().toLocaleTimeString()\<close>.
\<close>

definition sendRequest_dispatch :: "string \<Rightarrow> rat \<Rightarrow> int \<Rightarrow> string \<Rightarrow> App \<Rightarrow> App" where
  "sendRequest_dispatch rid now dateNow ts s =
     s\<lparr>logs := slice (- 200) (logs s @ [pendingLog rid dateNow ts]),
       inflight := inflight s @
         [\<lparr>callNo = nextCall s, requestId = rid, startTime_Call = now, timestamp_Call = ts\<rparr>],
       nextCall := nextCall s + 1\<rparr>"

text \<open>The two objects the log updaters build for the entry of the request.\<close>

definition resultLog :: "Response \<Rightarrow> int \<Rightarrow> Log \<Rightarrow> Log" where
  "resultLog res lat entry =
     entry\<lparr>status := (if ok res then Success else Error),
         statusCode := Some (status_Response res),
         message := (if ok res then ''Success''
                     else ''Status: '' @ decimal (status_Response res) @ '' '' @ statusText res),
         latency := Some lat\<rparr>"

definition errorLog :: "Thrown \<Rightarrow> int \<Rightarrow> Log \<Rightarrow> Log" where
  "errorLog err lat entry =
     entry\<lparr>status := Error, statusCode := Some 0, message := errorMessage err,
         latency := Some lat\<rparr>"

definition countSuccess :: "int \<Rightarrow> Stat \<Rightarrow> Stat" where
  "countSuccess lat prev =
     prev\<lparr>total_Stat := total_Stat prev + 1, success := success prev + 1,
          totalLatency := totalLatency prev + lat\<rparr>"

definition countError :: "int \<Rightarrow> Stat \<Rightarrow> Stat" where
  "countError lat prev =
     prev\<lparr>total_Stat := total_Stat prev + 1, error := error prev + 1,
          totalLatency := totalLatency prev + lat\<rparr>"

text \<open>
  \<open>sendRequest\<close> after the \<^verbatim>\<open>await\<close>, for the suspended call \<open>c\<close>: the \<^verbatim>\<open>try\<close>
  block when the promise is fulfilled, the \<^verbatim>\<open>catch\<close> block when it is rejected.
  \<open>endTime\<close> is the reading of \<^verbatim>\<open>performance.now()\<close> in that block.
\<close>

definition sendRequest_settle :: "Call \<Rightarrow> Outcome \<Rightarrow> rat \<Rightarrow> App \<Rightarrow> App" where
  "sendRequest_settle c outcome endTime s =
     (let lat = Math_round (endTime - startTime_Call c) in
      case outcome of
        Resolved res \<Rightarrow>
          s\<lparr>chartData := slice (- 200)
               (chartData s @ [\<lparr>time = timestamp_Call c, latency_ChartData = lat\<rparr>]),
            stats := (if ok res then countSuccess lat (stats s) else countError lat (stats s)),
            logs := map (\<lambda>entry. if id_Log entry = requestId c then resultLog res lat entry else entry)
                      (logs s)\<rparr>
      | Rejected err \<Rightarrow>
          s\<lparr>stats := countError lat (stats s),
            logs := map (\<lambda>entry. if id_Log entry = requestId c then errorLog err lat entry else entry)
                      (logs s)\<rparr>)"

definition toggleRunning :: "App \<Rightarrow> App" where
  "toggleRunning s = s\<lparr>isRunning := \<not> isRunning s\<rparr>"

definition resetStats :: "App \<Rightarrow> App" where
  "resetStats s =
     s\<lparr>stats := \<lparr>total_Stat = 0, success = 0, error = 0, totalLatency = 0\<rparr>,
       logs := [], chartData := []\<rparr>"

text \<open>The derived metrics, computed at every rendering.\<close>

definition errorRate :: "(rat \<Rightarrow> string) \<Rightarrow> Stat \<Rightarrow> string" where
  "errorRate toStr st =
     (if 0 < total_Stat st
      then toFixed toStr (rat_of_nat (error st) / rat_of_nat (total_Stat st) * 100) 2
      else ''0.00'')"

definition avgLatency :: "(rat \<Rightarrow> string) \<Rightarrow> Stat \<Rightarrow> string" where
  "avgLatency toStr st =
     (if 0 < total_Stat st
      then toFixed toStr (rat_of_int (totalLatency st) / rat_of_nat (total_Stat st)) 2
      else ''0.00'')"

text \<open>
  The handler of the interval input, \<^verbatim>\<open>setIntervalMs(parseInt(e.target.value) || 100)\<close>.
  The argument is the result of \<^verbatim>\<open>parseInt\<close>, \<open>None\<close> for \<^verbatim>\<open>NaN\<close>; \<^verbatim>\<open>NaN\<close> and 0 are
  falsy.
\<close>

definition changeInterval :: "int option \<Rightarrow> App \<Rightarrow> App" where
  "changeInterval parsed s =
     s\<lparr>intervalMs := (case parsed of None \<Rightarrow> 100 | Some v \<Rightarrow> if v = 0 then 100 else v)\<rparr>"

text \<open>
  What can happen to the component. The timer of the effect exists only while
  \<open>isRunning\<close> holds, so a tick in a stopped component sends nothing. The reset button
  and the interval input carry \<^verbatim>\<open>disabled={isRunning}\<close>: a disabled control does not
  call its handler. A settlement resumes the suspended call of the given number.
\<close>

datatype Event =
    Tick string rat int string
  | Settle nat Outcome rat
  | ToggleRunning
  | ClickReset
  | ChangeInterval "int option"
  | SetViewMode ViewMode

fun step :: "Event \<Rightarrow> App \<Rightarrow> App" where
  "step (Tick rid now dateNow ts) s =
     (if isRunning s then sendRequest_dispatch rid now dateNow ts s else s)"
| "step (Settle n outcome endTime) s =
     (case find (\<lambda>c. callNo c = n) (inflight s) of
        None \<Rightarrow> s
      | Some c \<Rightarrow>
          sendRequest_settle c outcome endTime
            (s\<lparr>inflight := filter (\<lambda>c. callNo c \<noteq> n) (inflight s)\<rparr>))"
| "step ToggleRunning s = toggleRunning s"
| "step ClickReset s = (if isRunning s then s else resetStats s)"
| "step (ChangeInterval parsed) s = (if isRunning s then s else changeInterval parsed s)"
| "step (SetViewMode m) s = s\<lparr>viewMode := m\<rparr>"

fun run :: "Event list \<Rightarrow> App \<Rightarrow> App" where
  "run [] s = s"
| "run (e # es) s = run es (step e s)"

subsection \<open>The POST component (entries logged at settlement)\<close>

datatype Status_post = Success_post | Error_post

record Stat_post =
  total_post :: nat
  success_post :: nat
  error_post :: nat

record Log_post =
  id_post :: string
  timestamp_post :: string
  status_post :: Status_post
  message_post :: string
  latency_post :: int

record Call_post =
  callNo_post :: nat
  startTime_post :: rat

record App_post =
  intervalSec :: rat
  isRunning_post :: bool
  stats_post :: Stat_post
  logs_post :: "Log_post list"
  inflight_post :: "Call_post list"
  nextCall_post :: nat

definition initial_post :: App_post where
  "initial_post =
     \<lparr>intervalSec = 1, isRunning_post = False,
      stats_post = \<lparr>total_post = 0, success_post = 0, error_post = 0\<rparr>,
      logs_post = [], inflight_post = [], nextCall_post = 0\<rparr>"

text \<open>
  The body of a response, as \<^verbatim>\<open>await res.json()\<close> delivers it: the promise is rejected
  (the body is not JSON), or it is fulfilled with \<^verbatim>\<open>null\<close>, where reading \<^verbatim>\<open>data.id\<close>
  throws a \<^verbatim>\<open>TypeError\<close> with the given message, or with another value, where
  \<^verbatim>\<open>${data.id}\<close> is the given text.
\<close>

datatype Json = Json_rejected Thrown | Json_null string | Json_data string

datatype Outcome_post = Resolved_post Response Json | Rejected_post Thrown

definition dispatch_post :: "rat \<Rightarrow> App_post \<Rightarrow> App_post" where
  "dispatch_post now s =
     s\<lparr>inflight_post := inflight_post s @ [\<lparr>callNo_post = nextCall_post s, startTime_post = now\<rparr>],
       nextCall_post := nextCall_post s + 1\<rparr>"

text \<open>
  \<open>addLog\<close>: \<open>newId\<close> is the result of \<^verbatim>\<open>crypto.randomUUID()\<close>, \<open>ts\<close> of
  \<^verbatim>\<open>new Date().toLocaleTimeString()\<close>.
\<close>

definition addLog :: "string \<Rightarrow> string \<Rightarrow> Status_post \<Rightarrow> string \<Rightarrow> int \<Rightarrow> App_post \<Rightarrow> App_post" where
  "addLog newId ts st msg lat s =
     s\<lparr>logs_post := slice (- 50)
          (logs_post s @
             [\<lparr>id_post = newId, timestamp_post = ts, status_post = st, message_post = msg,
               latency_post = lat\<rparr>])\<rparr>"

definition countSuccess_post :: "App_post \<Rightarrow> App_post" where
  "countSuccess_post s =
     s\<lparr>stats_post := (stats_post s)
          \<lparr>total_post := total_post (stats_post s) + 1,
           success_post := success_post (stats_post s) + 1\<rparr>\<rparr>"

definition countError_post :: "App_post \<Rightarrow> App_post" where
  "countError_post s =
     s\<lparr>stats_post := (stats_post s)
          \<lparr>total_post := total_post (stats_post s) + 1,
           error_post := error_post (stats_post s) + 1\<rparr>\<rparr>"

text \<open>The \<^verbatim>\<open>catch\<close> block; \<open>endTime\<close> is its own reading of the clock.\<close>

definition catch_post :: "Call_post \<Rightarrow> Thrown \<Rightarrow> rat \<Rightarrow> string \<Rightarrow> string \<Rightarrow> App_post \<Rightarrow> App_post" where
  "catch_post c err endTime newId ts s =
     addLog newId ts Error_post (errorMessage err) (Math_round (endTime - startTime_post c))
       (countError_post s)"

text \<open>
  \<open>sendRequest\<close> after the \<^verbatim>\<open>await\<close>. \<open>endTime\<close> is the first reading of the clock
  after the call resumes, \<open>catchTime\<close> the reading of the \<^verbatim>\<open>catch\<close> block when the
  \<^verbatim>\<open>try\<close> block has read the clock before it throws. The body is parsed before the
  counters are touched; \<^verbatim>\<open>data.id\<close> is read after \<^verbatim>\<open>setStats\<close> has been called.
\<close>

definition settle_post ::
  "Call_post \<Rightarrow> Outcome_post \<Rightarrow> rat \<Rightarrow> rat \<Rightarrow> string \<Rightarrow> string \<Rightarrow> App_post \<Rightarrow> App_post" where
  "settle_post c outcome endTime catchTime newId ts s =
     (case outcome of
        Rejected_post err \<Rightarrow> catch_post c err endTime newId ts s
      | Resolved_post res body \<Rightarrow>
          (let lat = Math_round (endTime - startTime_post c) in
           if ok res then
             (case body of
                Json_rejected err \<Rightarrow> catch_post c err catchTime newId ts s
              | Json_null msg \<Rightarrow>
                  catch_post c (ErrorInstance msg) catchTime newId ts (countSuccess_post s)
              | Json_data idText \<Rightarrow>
                  addLog newId ts Success_post (''ID: '' @ idText @ '' - Created successfully'') lat
                    (countSuccess_post s))
           else
             addLog newId ts Error_post
               (''Status: '' @ decimal (status_Response res) @ '' '' @ statusText res) lat
               (countError_post s)))"

definition toggleRunning_post :: "App_post \<Rightarrow> App_post" where
  "toggleRunning_post s = s\<lparr>isRunning_post := \<not> isRunning_post s\<rparr>"

definition resetStats_post :: "App_post \<Rightarrow> App_post" where
  "resetStats_post s =
     s\<lparr>stats_post := \<lparr>total_post = 0, success_post = 0, error_post = 0\<rparr>, logs_post := []\<rparr>"

definition errorRate_post :: "(rat \<Rightarrow> string) \<Rightarrow> Stat_post \<Rightarrow> string" where
  "errorRate_post toStr st =
     (if 0 < total_post st
      then toFixed toStr (rat_of_nat (error_post st) / rat_of_nat (total_post st) * 100) 2
      else ''0.00'')"

text \<open>
  \<^verbatim>\<open>setIntervalSec(parseFloat(e.target.value) || 1)\<close>; the argument is the result of
  \<^verbatim>\<open>parseFloat\<close>, \<open>None\<close> for \<^verbatim>\<open>NaN\<close>.
\<close>

definition changeInterval_post :: "rat option \<Rightarrow> App_post \<Rightarrow> App_post" where
  "changeInterval_post parsed s =
     s\<lparr>intervalSec := (case parsed of None \<Rightarrow> 1 | Some v \<Rightarrow> if v = 0 then 1 else v)\<rparr>"

datatype Event_post =
    Tick_post rat
  | Settle_post nat Outcome_post rat rat string string
  | ToggleRunning_post
  | ClickReset_post
  | ChangeInterval_post "rat option"

fun step_post :: "Event_post \<Rightarrow> App_post \<Rightarrow> App_post" where
  "step_post (Tick_post now) s = (if isRunning_post s then dispatch_post now s else s)"
| "step_post (Settle_post n outcome endTime catchTime newId ts) s =
     (case find (\<lambda>c. callNo_post c = n) (inflight_post s) of
        None \<Rightarrow> s
      | Some c \<Rightarrow>
          settle_post c outcome endTime catchTime newId ts
            (s\<lparr>inflight_post := filter (\<lambda>c. callNo_post c \<noteq> n) (inflight_post s)\<rparr>))"
| "step_post ToggleRunning_post s = toggleRunning_post s"
| "step_post ClickReset_post s = (if isRunning_post s then s else resetStats_post s)"
| "step_post (ChangeInterval_post parsed) s =
     (if isRunning_post s then s else changeInterval_post parsed s)"

fun run_post :: "Event_post list \<Rightarrow> App_post \<Rightarrow> App_post" where
  "run_post [] s = s"
| "run_post (e # es) s = run_post es (step_post e s)"

subsection \<open>Predicates of the properties\<close>

definition balanced :: "Stat \<Rightarrow> bool" where
  "balanced st = (total_Stat st = success st + error st)"

definition balanced_post :: "Stat_post \<Rightarrow> bool" where
  "balanced_post st = (total_post st = success_post st + error_post st)"

text \<open>
  The identifiers that \<^verbatim>\<open>crypto.randomUUID()\<close> has delivered to the ticks of a sequence
  of events. They are fresh when this list is distinct.
\<close>

fun tick_ids :: "Event list \<Rightarrow> string list" where
  "tick_ids [] = []"
| "tick_ids (Tick rid now dateNow ts # es) = rid # tick_ids es"
| "tick_ids (e # es) = tick_ids es"

text \<open>
  What holds of the log and the suspended calls when the identifiers in \<open>used\<close> are
  the ones delivered so far: they carry identifiers of \<open>used\<close> only, no identifier
  twice, and an entry that has left the pending state has no suspended call.
\<close>

definition fresh_inv :: "string list \<Rightarrow> App \<Rightarrow> bool" where
  "fresh_inv used s =
     (set (map id_Log (logs s)) \<subseteq> set used
      \<and> set (map requestId (inflight s)) \<subseteq> set used
      \<and> distinct (map id_Log (logs s))
      \<and> distinct (map requestId (inflight s))
      \<and> list_all (\<lambda>entry. status entry = Pending \<or> id_Log entry \<notin> set (map requestId (inflight s)))
           (logs s))"

text \<open>
  What one event may do to an entry of the log: an entry that has left the pending
  state stays as it is; a pending entry stays as it is or, at a settlement, takes one
  of the two terminal states and keeps its time stamps.
\<close>

definition evolves :: "Event \<Rightarrow> Log \<Rightarrow> Log \<Rightarrow> bool" where
  "evolves e old new =
     (if status old = Pending
      then new = old \<or>
        ((case e of Settle n outcome endTime \<Rightarrow> True | _ \<Rightarrow> False)
         \<and> status new \<in> {Success, Error}
         \<and> timestamp new = timestamp old \<and> startTime new = startTime old)
      else new = old)"

text \<open>An entry that a tick has created: the pending entry of the request.\<close>

definition created_by :: "Event \<Rightarrow> Log \<Rightarrow> bool" where
  "created_by e new =
     (case e of Tick rid now dateNow ts \<Rightarrow> new = pendingLog rid dateNow ts | _ \<Rightarrow> False)"

text \<open>
  The entry of a request once it has settled, written out: the pending entry with the
  terminal status, the status code, the message and the latency.
\<close>

definition terminalLog :: "string \<Rightarrow> int \<Rightarrow> string \<Rightarrow> Outcome \<Rightarrow> int \<Rightarrow> Log" where
  "terminalLog rid dateNow ts outcome lat =
     (case outcome of
        Resolved res \<Rightarrow>
          \<lparr>id_Log = rid, timestamp = ts, startTime = dateNow,
           status = (if ok res then Success else Error),
           statusCode = Some (status_Response res),
           message = (if ok res then ''Success''
                      else ''Status: '' @ decimal (status_Response res) @ '' '' @ statusText res),
           latency = Some lat\<rparr>
      | Rejected err \<Rightarrow>
          \<lparr>id_Log = rid, timestamp = ts, startTime = dateNow, status = Error,
           statusCode = Some 0, message = errorMessage err, latency = Some lat\<rparr>)"

text \<open>A request has succeeded when a response with a status from 200 to 299 has arrived.\<close>

definition succeeded :: "Outcome \<Rightarrow> bool" where
  "succeeded outcome = (case outcome of Resolved res \<Rightarrow> ok res | Rejected err \<Rightarrow> False)"

text \<open>
  The same for the POST component. The entry is built when the request settles; the
  latency is taken at the clock reading of the block that logs. A request whose
  response has the body \<^verbatim>\<open>null\<close> is counted twice, as a success and as an error.
\<close>

definition succeeded_post :: "Outcome_post \<Rightarrow> bool" where
  "succeeded_post outcome =
     (case outcome of
        Resolved_post res body \<Rightarrow>
          ok res \<and> (case body of Json_data idText \<Rightarrow> True | _ \<Rightarrow> False)
      | Rejected_post err \<Rightarrow> False)"

definition null_body :: "Outcome_post \<Rightarrow> bool" where
  "null_body outcome =
     (case outcome of
        Resolved_post res body \<Rightarrow>
          ok res \<and> (case body of Json_null msg \<Rightarrow> True | _ \<Rightarrow> False)
      | Rejected_post err \<Rightarrow> False)"

definition terminalLog_post ::
  "rat \<Rightarrow> Outcome_post \<Rightarrow> rat \<Rightarrow> rat \<Rightarrow> string \<Rightarrow> string \<Rightarrow> Log_post" where
  "terminalLog_post start outcome endTime catchTime newId ts =
     (case outcome of
        Rejected_post err \<Rightarrow>
          \<lparr>id_post = newId, timestamp_post = ts, status_post = Error_post,
           message_post = errorMessage err, latency_post = Math_round (endTime - start)\<rparr>
      | Resolved_post res body \<Rightarrow>
          if ok res then
            (case body of
               Json_rejected err \<Rightarrow>
                 \<lparr>id_post = newId, timestamp_post = ts, status_post = Error_post,
                  message_post = errorMessage err, latency_post = Math_round (catchTime - start)\<rparr>
             | Json_null msg \<Rightarrow>
                 \<lparr>id_post = newId, timestamp_post = ts, status_post = Error_post,
                  message_post = msg, latency_post = Math_round (catchTime - start)\<rparr>
             | Json_data idText \<Rightarrow>
                 \<lparr>id_post = newId, timestamp_post = ts, status_post = Success_post,
                  message_post = ''ID: '' @ idText @ '' - Created successfully'',
                  latency_post = Math_round (endTime - start)\<rparr>)
          else
            \<lparr>id_post = newId, timestamp_post = ts, status_post = Error_post,
             message_post = ''Status: '' @ decimal (status_Response res) @ '' '' @ statusText res,
             latency_post = Math_round (endTime - start)\<rparr>)"

text \<open>
  Three requests and the order in which they settle. An exchange holds what the
  environment supplies to one request: the identifier and the clock readings at the
  tick, the outcome of \<^verbatim>\<open>fetch\<close> and the clock reading at the settlement. The
  requests \<open>req 0\<close>, \<open>req 1\<close>, \<open>req 2\<close> are sent in this order; \<open>js\<close> lists their
  numbers in the order of settlement.
\<close>

record Exchange =
  uuid :: string
  perfStart :: rat
  dateStart :: int
  stamp :: string
  result :: Outcome
  perfEnd :: rat

definition three_requests :: "(nat \<Rightarrow> Exchange) \<Rightarrow> nat list \<Rightarrow> App \<Rightarrow> App" where
  "three_requests req js s =
     run (map (\<lambda>j. Tick (uuid (req j)) (perfStart (req j)) (dateStart (req j)) (stamp (req j)))
            [0, 1, 2]
          @ map (\<lambda>j. Settle (nextCall s + j) (result (req j)) (perfEnd (req j))) js) s"

definition terminal_entry :: "Exchange \<Rightarrow> Log" where
  "terminal_entry x =
     terminalLog (uuid x) (dateStart x) (stamp x) (result x)
       (Math_round (perfEnd x - perfStart x))"

record Exchange_post =
  perfStart_post :: rat
  result_post :: Outcome_post
  perfEnd_post :: rat
  perfCatch_post :: rat
  uuid_post :: string
  stamp_post :: string

definition three_requests_post :: "(nat \<Rightarrow> Exchange_post) \<Rightarrow> nat list \<Rightarrow> App_post \<Rightarrow> App_post" where
  "three_requests_post req js s =
     run_post (map (\<lambda>j. Tick_post (perfStart_post (req j))) [0, 1, 2]
          @ map (\<lambda>j. Settle_post (nextCall_post s + j) (result_post (req j)) (perfEnd_post (req j))
                   (perfCatch_post (req j)) (uuid_post (req j)) (stamp_post (req j))) js) s"

definition terminal_entry_post :: "Exchange_post \<Rightarrow> Log_post" where
  "terminal_entry_post x =
     terminalLog_post (perfStart_post x) (result_post x) (perfEnd_post x) (perfCatch_post x)
       (uuid_post x) (stamp_post x)"

text \<open>What a settlement writes into an entry of the request, for both outcomes.\<close>

definition settleLog :: "Outcome \<Rightarrow> int \<Rightarrow> Log \<Rightarrow> Log" where
  "settleLog outcome lat entry =
     (case outcome of Resolved res \<Rightarrow> resultLog res lat entry | Rejected err \<Rightarrow> errorLog err lat entry)"

text \<open>
  A number of hundredths written with exactly two decimal places: the integer part in
  decimal digits, a point, two digits. \<open>nearest x\<close> is the natural number nearest to a
  non-negative \<open>x\<close>, the larger one of two.
\<close>

definition two_places :: "nat \<Rightarrow> string" where
  "two_places n =
     decimal (n div 100) @ ''.'' @ [digit_char (n div 10 mod 10), digit_char (n mod 10)]"

definition nearest :: "rat \<Rightarrow> nat" where
  "nearest x = nat \<lfloor>x + 1 / 2\<rfloor>"

subsection \<open>Example inputs\<close>

definition example_call :: Call where
  "example_call =
     \<lparr>callNo = 0, requestId = ''r1'', startTime_Call = 100, timestamp_Call = ''10:00:00''\<rparr>"

definition example_pending :: App where
  "example_pending =
     \<lparr>viewMode = Dashboard, intervalMs = 1000, isRunning = True,
      stats = \<lparr>total_Stat = 0, success = 0, error = 0, totalLatency = 0\<rparr>,
      logs = [pendingLog ''r1'' 1700000000000 ''10:00:00''], chartData = [],
      inflight = [], nextCall = 1\<rparr>"

definition example_call_post :: Call_post where
  "example_call_post = \<lparr>callNo_post = 0, startTime_post = 100\<rparr>"

definition example_500 :: Response where
  "example_500 = \<lparr>status_Response = 500, statusText = ''Internal Server Error''\<rparr>"

definition example_201 :: Response where
  "example_201 = \<lparr>status_Response = 201, statusText = ''Created''\<rparr>"

definition example_200 :: Response where
  "example_200 = \<lparr>status_Response = 200, statusText = ''OK''\<rparr>"

text \<open>
  Three requests sent at 100, 110 and 120 ms; the second one is answered first, after
  25 ms, the first one fails after 90 ms, the third one is answered after 80 ms.
\<close>

definition example_req :: "nat \<Rightarrow> Exchange" where
  "example_req j =
     (if j = 0 then
        \<lparr>uuid = ''r0'', perfStart = 100, dateStart = 1700000000100, stamp = ''10:00:00'',
         result = Rejected (ErrorInstance ''Failed to fetch''), perfEnd = 190\<rparr>
      else if j = 1 then
        \<lparr>uuid = ''r1'', perfStart = 110, dateStart = 1700000000110, stamp = ''10:00:00'',
         result = Resolved example_200, perfEnd = 135\<rparr>
      else
        \<lparr>uuid = ''r2'', perfStart = 120, dateStart = 1700000000120, stamp = ''10:00:00'',
         result = Resolved example_500, perfEnd = 200\<rparr>)"

definition example_req_post :: "nat \<Rightarrow> Exchange_post" where
  "example_req_post j =
     (if j = 0 then
        \<lparr>perfStart_post = 100, result_post = Rejected_post (ErrorInstance ''Failed to fetch''),
         perfEnd_post = 190, perfCatch_post = 190, uuid_post = ''u2'', stamp_post = ''10:00:01''\<rparr>
      else if j = 1 then
        \<lparr>perfStart_post = 110, result_post = Resolved_post example_201 (Json_data ''7''),
         perfEnd_post = 135, perfCatch_post = 135, uuid_post = ''u1'', stamp_post = ''10:00:00''\<rparr>
      else
        \<lparr>perfStart_post = 120, result_post = Resolved_post example_500 (Json_data ''0''),
         perfEnd_post = 200, perfCatch_post = 200, uuid_post = ''u3'', stamp_post = ''10:00:02''\<rparr>)"

text \<open>A run of the dashboard with two requests, and the event that comes next.\<close>

definition example_trace :: "Event list" where
  "example_trace =
     [ToggleRunning, Tick ''r0'' 100 1700000000100 ''10:00:00'',
      Tick ''r1'' 110 1700000000110 ''10:00:00'', Settle 1 (Resolved example_200) 135]"

definition example_next :: Event where
  "example_next = Settle 0 (Rejected (ErrorInstance ''Failed to fetch'')) 190"

definition example_stats :: Stat where
  "example_stats = \<lparr>total_Stat = 3, success = 2, error = 1, totalLatency = 125\<rparr>"

definition example_stats_post :: Stat_post where
  "example_stats_post = \<lparr>total_post = 3, success_post = 2, error_post = 1\<rparr>"

section \<open>Properties\<close>

subsection \<open>Auxiliary facts\<close>

lemma slice_neg: "0 < n \<Longrightarrow> slice (- int n) xs = drop (length xs - n) xs"
  by (simp add: slice_def Let_def max_def nat_diff_distrib')

lemma slice_200: "slice (- 200) xs = drop (length xs - 200) xs"
  using slice_neg [of 200 xs] by simp

lemma slice_50: "slice (- 50) xs = drop (length xs - 50) xs"
  using slice_neg [of 50 xs] by simp

lemma run_append: "run (es @ es') s = run es' (run es s)"
  by (induction es arbitrary: s) simp_all

lemma run_post_append: "run_post (es @ es') s = run_post es' (run_post es s)"
  by (induction es arbitrary: s) simp_all

subsection \<open>The counters\<close>

lemma stats_step_cases:
  "stats (step e s) = stats s \<or> (\<exists>lat. stats (step e s) = countSuccess lat (stats s))
   \<or> (\<exists>lat. stats (step e s) = countError lat (stats s))
   \<or> stats (step e s) = \<lparr>total_Stat = 0, success = 0, error = 0, totalLatency = 0\<rparr>"
  by (cases e)
     (auto simp: sendRequest_dispatch_def sendRequest_settle_def toggleRunning_def resetStats_def
        changeInterval_def Let_def split: option.splits Outcome.splits)

lemma balanced_step: "balanced (stats s) \<Longrightarrow> balanced (stats (step e s))"
  using stats_step_cases [of e s]
  by (auto simp: balanced_def countSuccess_def countError_def)

lemma balanced_run: "balanced (stats s) \<Longrightarrow> balanced (stats (run es s))"
  by (induction es arbitrary: s) (simp_all add: balanced_step)

lemma balanced_settle_post:
  "balanced_post (stats_post s) \<Longrightarrow>
   balanced_post (stats_post (settle_post c outcome t1 t2 i ts s))"
  by (auto simp: balanced_post_def settle_post_def catch_post_def addLog_def countSuccess_post_def
        countError_post_def Let_def split: Outcome_post.splits Json.splits)

lemma balanced_step_post:
  "balanced_post (stats_post s) \<Longrightarrow> balanced_post (stats_post (step_post e s))"
proof (cases e)
  case (Settle_post n outcome t1 t2 i ts)
  assume "balanced_post (stats_post s)"
  then show ?thesis
    using Settle_post
      balanced_settle_post
        [of "s\<lparr>inflight_post := filter (\<lambda>c. callNo_post c \<noteq> n) (inflight_post s)\<rparr>"]
    by (simp split: option.splits)
qed (auto simp: balanced_post_def dispatch_post_def toggleRunning_post_def resetStats_post_def
       changeInterval_post_def)

lemma balanced_run_post:
  "balanced_post (stats_post s) \<Longrightarrow> balanced_post (stats_post (run_post es s))"
  by (induction es arbitrary: s) (simp_all add: balanced_step_post)

text \<open>
  Claim C1. Whatever happens to a freshly mounted component, in any order (ticks,
  settlements, clicks), the counters satisfy \<open>total = success + error\<close> afterwards, in
  the dashboard and in the POST component. Sending a request, which leaves it pending,
  changes no counter.
\<close>

theorem total_is_success_plus_error:
  "total_Stat (stats (run es initial)) =
     success (stats (run es initial)) + error (stats (run es initial))
   \<and> total_post (stats_post (run_post es' initial_post)) =
     success_post (stats_post (run_post es' initial_post))
       + error_post (stats_post (run_post es' initial_post))
   \<and> stats (sendRequest_dispatch rid now dateNow ts s) = stats s
   \<and> stats_post (dispatch_post now' s') = stats_post s'"
proof -
  have "balanced (stats (run es initial))"
    by (rule balanced_run) (simp add: balanced_def initial_def)
  moreover have "balanced_post (stats_post (run_post es' initial_post))"
    by (rule balanced_run_post) (simp add: balanced_post_def initial_post_def)
  ultimately show ?thesis
    by (simp add: balanced_def balanced_post_def sendRequest_dispatch_def dispatch_post_def)
qed

subsection \<open>The rolling windows\<close>

lemma capped_step:
  "length (logs s) \<le> 200 \<and> length (chartData s) \<le> 200 \<Longrightarrow>
   length (logs (step e s)) \<le> 200 \<and> length (chartData (step e s)) \<le> 200"
  by (cases e)
     (auto simp: sendRequest_dispatch_def sendRequest_settle_def toggleRunning_def resetStats_def
        changeInterval_def Let_def slice_200 split: option.splits Outcome.splits)

lemma capped_run:
  "length (logs s) \<le> 200 \<and> length (chartData s) \<le> 200 \<Longrightarrow>
   length (logs (run es s)) \<le> 200 \<and> length (chartData (run es s)) \<le> 200"
proof (induction es arbitrary: s)
  case Nil
  then show ?case by simp
next
  case (Cons e es)
  from Cons.IH [OF capped_step [OF Cons.prems, of e]] show ?case by simp
qed

lemma logs_settle_post_length:
  "length (logs_post s) \<le> 50 \<Longrightarrow>
   length (logs_post (settle_post c outcome t1 t2 i ts s)) \<le> 50"
  by (auto simp: settle_post_def catch_post_def addLog_def countSuccess_post_def
        countError_post_def Let_def slice_50 split: Outcome_post.splits Json.splits)

lemma capped_step_post:
  "length (logs_post s) \<le> 50 \<Longrightarrow> length (logs_post (step_post e s)) \<le> 50"
proof (cases e)
  case (Settle_post n outcome t1 t2 i ts)
  assume "length (logs_post s) \<le> 50"
  then show ?thesis
    using Settle_post
      logs_settle_post_length
        [of "s\<lparr>inflight_post := filter (\<lambda>c. callNo_post c \<noteq> n) (inflight_post s)\<rparr>"]
    by (simp split: option.splits)
qed (auto simp: dispatch_post_def toggleRunning_post_def resetStats_post_def
       changeInterval_post_def)

lemma capped_run_post:
  "length (logs_post s) \<le> 50 \<Longrightarrow> length (logs_post (run_post es s)) \<le> 50"
  by (induction es arbitrary: s) (simp_all add: capped_step_post)


subsection \<open>Evaluating numerals and digits\<close>

lemma floor_rat_numeral: "\<lfloor>numeral a / numeral b :: rat\<rfloor> = numeral a div numeral b"
  using floor_divide_of_int_eq [of "numeral a" "numeral b", where ?'a = rat] by simp

lemma floor_rat_unit: "\<lfloor>1 / numeral b :: rat\<rfloor> = 1 div numeral b"
  using floor_divide_of_int_eq [of 1 "numeral b", where ?'a = rat] by simp

lemma decimal_small: "n < 10 \<Longrightarrow> decimal n = [digit_char n]"
  by (simp add: decimal.simps)

lemma decimal_large: "10 \<le> n \<Longrightarrow> decimal n = decimal (n div 10) @ [digit_char (n mod 10)]"
  by (subst decimal.simps) simp

lemma length_decimal_pos: "0 < length (decimal n)"
  by (subst decimal.simps) simp

lemma decimal_100:
  assumes "100 \<le> n"
  shows "decimal n = decimal (n div 100) @ [digit_char (n div 10 mod 10), digit_char (n mod 10)]"
proof -
  have "10 \<le> n div 10" using assms by simp
  then have "decimal (n div 10) = decimal (n div 10 div 10) @ [digit_char (n div 10 mod 10)]"
    by (rule decimal_large)
  moreover have "n div 10 div 10 = n div 100" by (simp add: div_mult2_eq)
  moreover have "decimal n = decimal (n div 10) @ [digit_char (n mod 10)]"
    using assms by (intro decimal_large) simp
  ultimately show ?thesis by simp
qed

lemma digit_char_0: "digit_char 0 = CHR ''0''"
  by (simp add: digit_char_def)

subsection \<open>Derived metrics\<close>

lemma toFixed_2:
  assumes "0 \<le> x" and "x < 10 ^ 21"
  shows "toFixed toStr x 2 = two_places (nearest (x * 100))"
proof -
  define n where "n = nat \<lfloor>x * 100 + 1 / 2\<rfloor>"
  have eq: "toFixed toStr x 2 =
      (let m' = (if length (decimal n) \<le> 2 then replicate (3 - length (decimal n)) (CHR ''0'') @ decimal n else decimal n)
       in take (length m' - 2) m' @ ''.'' @ drop (length m' - 2) m')"
    using assms by (simp add: toFixed_def Let_def n_def)
  consider "n < 10" | "10 \<le> n" "n < 100" | "100 \<le> n" by linarith
  then have "toFixed toStr x 2 = two_places n"
  proof cases
    case 1
    then show ?thesis
      by (simp add: eq decimal_small two_places_def digit_char_0 numeral_3_eq_3)
  next
    case 2
    then have d: "decimal n = [digit_char (n div 10), digit_char (n mod 10)]"
      by (simp add: decimal_large decimal_small)
    from 2 show ?thesis
      by (simp add: eq d two_places_def decimal_small digit_char_0)
  next
    case 3
    have "0 < length (decimal (n div 100))" by (rule length_decimal_pos)
    then show ?thesis
      by (simp add: eq decimal_100 [OF 3] two_places_def)
  qed
  then show ?thesis by (simp add: n_def nearest_def)
qed

lemma nearest_close:
  assumes "0 \<le> x"
  shows "\<bar>rat_of_nat (nearest x) - x\<bar> \<le> 1 / 2"
proof -
  have "0 \<le> \<lfloor>x + 1 / 2\<rfloor>" using assms by simp
  then have "rat_of_nat (nearest x) = rat_of_int \<lfloor>x + 1 / 2\<rfloor>"
    by (simp add: nearest_def)
  moreover have "rat_of_int \<lfloor>x + 1 / 2\<rfloor> \<le> x + 1 / 2" by (rule of_int_floor_le)
  moreover have "x + 1 / 2 < rat_of_int \<lfloor>x + 1 / 2\<rfloor> + 1" by linarith
  ultimately show ?thesis by linarith
qed

lemma hundredths_close:
  assumes "0 \<le> x"
  shows "\<bar>rat_of_nat (nearest (x * 100)) / 100 - x\<bar> \<le> 1 / 200"
proof -
  have "\<bar>rat_of_nat (nearest (x * 100)) - x * 100\<bar> \<le> 1 / 2"
    using assms by (intro nearest_close) simp
  then show ?thesis by (simp add: abs_le_iff field_simps)
qed



subsection \<open>Classification of outcomes\<close>

text \<open>
  Claim C5. A response whose status is outside the range 200 to 299 counts as an error,
  although nothing was thrown: \<open>total\<close> and \<open>error\<close> grow by one, \<open>success\<close> stays.
  In the dashboard every entry of the request takes the status \<open>Error\<close>, the status
  code of the response and the latency; the POST component, whose entries have no
  status code, appends an error entry with the status code in its message. The witness
  is a response with status 500.
\<close>

theorem non_ok_response_is_error:
  assumes "\<not> ok res"
  shows "stats (sendRequest_settle c (Resolved res) endTime s) =
           (stats s)\<lparr>total_Stat := total_Stat (stats s) + 1, error := error (stats s) + 1,
             totalLatency := totalLatency (stats s) + Math_round (endTime - startTime_Call c)\<rparr>
         \<and> success (stats (sendRequest_settle c (Resolved res) endTime s)) = success (stats s)
         \<and> logs (sendRequest_settle c (Resolved res) endTime s) =
           map (\<lambda>entry. if id_Log entry = requestId c
                  then entry\<lparr>status := Error, statusCode := Some (status_Response res),
                         message := ''Status: '' @ decimal (status_Response res) @ '' '' @ statusText res,
                         latency := Some (Math_round (endTime - startTime_Call c))\<rparr>
                  else entry) (logs s)
         \<and> stats_post (settle_post c' (Resolved_post res body) endTime catchTime newId ts s') =
           (stats_post s')\<lparr>total_post := total_post (stats_post s') + 1,
             error_post := error_post (stats_post s') + 1\<rparr>
         \<and> success_post (stats_post (settle_post c' (Resolved_post res body) endTime catchTime newId ts s'))
             = success_post (stats_post s')
         \<and> logs_post (settle_post c' (Resolved_post res body) endTime catchTime newId ts s') =
           slice (- 50) (logs_post s' @
             [\<lparr>id_post = newId, timestamp_post = ts, status_post = Error_post,
               message_post = ''Status: '' @ decimal (status_Response res) @ '' '' @ statusText res,
               latency_post = Math_round (endTime - startTime_post c')\<rparr>])"
  using assms
  by (simp add: sendRequest_settle_def settle_post_def countError_def countError_post_def
        resultLog_def addLog_def Let_def)

theorem non_ok_response_is_error_witness:
  "\<not> ok example_500
   \<and> stats (sendRequest_settle example_call (Resolved example_500) (2853 / 20) example_pending) =
       \<lparr>total_Stat = 1, success = 0, error = 1, totalLatency = 43\<rparr>
   \<and> logs (sendRequest_settle example_call (Resolved example_500) (2853 / 20) example_pending) =
       [\<lparr>id_Log = ''r1'', timestamp = ''10:00:00'', startTime = 1700000000000, status = Error,
         statusCode = Some 500, message = ''Status: 500 Internal Server Error'',
         latency = Some 43\<rparr>]
   \<and> stats_post (settle_post example_call_post (Resolved_post example_500 (Json_data ''7''))
         (2853 / 20) 143 ''u1'' ''10:00:01'' initial_post) =
       \<lparr>total_post = 1, success_post = 0, error_post = 1\<rparr>
   \<and> logs_post (settle_post example_call_post (Resolved_post example_500 (Json_data ''7''))
         (2853 / 20) 143 ''u1'' ''10:00:01'' initial_post) =
       [\<lparr>id_post = ''u1'', timestamp_post = ''10:00:01'', status_post = Error_post,
         message_post = ''Status: 500 Internal Server Error'', latency_post = 43\<rparr>]"
proof -
  have h: "\<not> ok example_500"
    by (simp add: ok_def example_500_def)
  have d: "decimal 500 = ''500''"
    by (simp add: decimal.simps digit_char_def)
  show ?thesis
    using h non_ok_response_is_error [OF h, of example_call "2853 / 20" example_pending
        example_call_post "Json_data ''7''" 143 "''u1''" "''10:00:01''" initial_post]
    by (simp add: example_call_def example_pending_def example_call_post_def example_500_def
          initial_post_def pendingLog_def Math_round_def floor_rat_numeral d slice_50)
qed

text \<open>
  Claim C6. A request whose \<^verbatim>\<open>fetch\<close> is rejected counts as an error: \<open>total\<close> and
  \<open>error\<close> grow by one, \<open>success\<close> stays. In the dashboard every entry of the request
  takes the status \<open>Error\<close>, the status code 0 and, as message, the message of the
  thrown \<^verbatim>\<open>Error\<close>, or \<open>Network Error\<close> when the thrown value is no \<^verbatim>\<open>Error\<close> and so
  carries no message; the POST component appends such an entry, without a status code.
  The settlement leaves \<open>isRunning\<close> and the interval as they are: the timer goes on.
\<close>

theorem transport_failure_is_error:
  "stats (sendRequest_settle c (Rejected err) endTime s) =
     (stats s)\<lparr>total_Stat := total_Stat (stats s) + 1, error := error (stats s) + 1,
       totalLatency := totalLatency (stats s) + Math_round (endTime - startTime_Call c)\<rparr>
   \<and> success (stats (sendRequest_settle c (Rejected err) endTime s)) = success (stats s)
   \<and> logs (sendRequest_settle c (Rejected err) endTime s) =
     map (\<lambda>entry. if id_Log entry = requestId c
            then entry\<lparr>status := Error, statusCode := Some 0,
                   message := (case err of ErrorInstance m \<Rightarrow> m | NotAnError \<Rightarrow> ''Network Error''),
                   latency := Some (Math_round (endTime - startTime_Call c))\<rparr>
            else entry) (logs s)
   \<and> isRunning (step (Settle n (Rejected err) endTime) s) = isRunning s
   \<and> intervalMs (step (Settle n (Rejected err) endTime) s) = intervalMs s
   \<and> stats_post (settle_post c' (Rejected_post err) endTime catchTime newId ts s') =
     (stats_post s')\<lparr>total_post := total_post (stats_post s') + 1,
       error_post := error_post (stats_post s') + 1\<rparr>
   \<and> success_post (stats_post (settle_post c' (Rejected_post err) endTime catchTime newId ts s'))
       = success_post (stats_post s')
   \<and> logs_post (settle_post c' (Rejected_post err) endTime catchTime newId ts s') =
     slice (- 50) (logs_post s' @
       [\<lparr>id_post = newId, timestamp_post = ts, status_post = Error_post,
         message_post = (case err of ErrorInstance m \<Rightarrow> m | NotAnError \<Rightarrow> ''Network Error''),
         latency_post = Math_round (endTime - startTime_post c')\<rparr>])
   \<and> isRunning_post (step_post (Settle_post n (Rejected_post err) endTime catchTime newId ts) s')
       = isRunning_post s'
   \<and> intervalSec (step_post (Settle_post n (Rejected_post err) endTime catchTime newId ts) s')
       = intervalSec s'"
  by (cases err)
     (simp_all add: sendRequest_settle_def settle_post_def catch_post_def countError_def
        countError_post_def errorLog_def addLog_def Let_def split: option.splits)

subsection \<open>The chart series\<close>

text \<open>
  Claim C7, refuted as stated: the \<^verbatim>\<open>catch\<close> block does not touch the chart series.
  A request is sent and its \<^verbatim>\<open>fetch\<close> is rejected; its entry is settled, with status
  \<open>Error\<close> and a latency of 43 ms, and the chart series is still empty.
\<close>

theorem failed_request_adds_no_chart_point:
  "chartData (run [ToggleRunning, Tick ''r1'' 100 1700000000000 ''10:00:00'',
       Settle 0 (Rejected (ErrorInstance ''Failed to fetch'')) (2853 / 20)] initial) = []
   \<and> map status (logs (run [ToggleRunning, Tick ''r1'' 100 1700000000000 ''10:00:00'',
       Settle 0 (Rejected (ErrorInstance ''Failed to fetch'')) (2853 / 20)] initial)) = [Error]
   \<and> map latency (logs (run [ToggleRunning, Tick ''r1'' 100 1700000000000 ''10:00:00'',
       Settle 0 (Rejected (ErrorInstance ''Failed to fetch'')) (2853 / 20)] initial)) = [Some 43]"
  by (simp add: initial_def toggleRunning_def sendRequest_dispatch_def sendRequest_settle_def
        pendingLog_def errorLog_def countError_def Math_round_def floor_rat_numeral slice_200 Let_def)

text \<open>
  Claim C7, amended. For every request whose \<^verbatim>\<open>fetch\<close> is fulfilled with a response,
  of whatever status, a chart point with the latency of the request is appended to the
  chart series (which then keeps its last 200 points). A request whose \<^verbatim>\<open>fetch\<close> is
  rejected adds no chart point, and neither does sending a request.
\<close>

theorem chart_point_for_every_response:
  "chartData (sendRequest_settle c (Resolved res) endTime s) =
     drop (length (chartData s) + 1 - 200)
       (chartData s @
          [\<lparr>time = timestamp_Call c,
            latency_ChartData = Math_round (endTime - startTime_Call c)\<rparr>])
   \<and> last (chartData (sendRequest_settle c (Resolved res) endTime s)) =
       \<lparr>time = timestamp_Call c, latency_ChartData = Math_round (endTime - startTime_Call c)\<rparr>
   \<and> chartData (sendRequest_settle c (Rejected err) endTime s) = chartData s
   \<and> chartData (sendRequest_dispatch rid now dateNow ts s) = chartData s"
  by (simp add: sendRequest_settle_def sendRequest_dispatch_def slice_200 Let_def)

subsection \<open>Controls while running\<close>

text \<open>
  Claim C8. While \<open>isRunning\<close> holds, a click on the reset button and a change of the
  interval input leave the whole state as it is (counters, log, chart series and
  interval included): both controls are disabled. This holds for both components.
\<close>

theorem reset_and_interval_blocked_while_running:
  assumes "isRunning s" and "isRunning_post s'"
  shows "step ClickReset s = s \<and> step (ChangeInterval parsed) s = s
         \<and> step_post ClickReset_post s' = s' \<and> step_post (ChangeInterval_post parsed') s' = s'"
  using assms by simp

theorem reset_and_interval_blocked_while_running_witness:
  "isRunning (toggleRunning initial) \<and> isRunning_post (toggleRunning_post initial_post)
   \<and> step ClickReset (toggleRunning initial) = toggleRunning initial
   \<and> step (ChangeInterval (Some 50)) (toggleRunning initial) = toggleRunning initial
   \<and> step_post ClickReset_post (toggleRunning_post initial_post) = toggleRunning_post initial_post
   \<and> step_post (ChangeInterval_post (Some (1 / 2))) (toggleRunning_post initial_post)
       = toggleRunning_post initial_post"
proof -
  have h: "isRunning (toggleRunning initial)"
    by (simp add: toggleRunning_def initial_def)
  have h': "isRunning_post (toggleRunning_post initial_post)"
    by (simp add: toggleRunning_post_def initial_post_def)
  from reset_and_interval_blocked_while_running [OF h h', of "Some 50" "Some (1 / 2)"] h h'
  show ?thesis by simp
qed

subsection \<open>The body of a response in the POST component\<close>

text \<open>
  Claim C10. In the POST component, a response with a status in the range 200 to 299
  whose body does not parse counts as an error: \<open>total\<close> and \<open>error\<close> grow by one,
  \<open>success\<close> stays, and the appended entry has the status error and the message of
  the exception thrown by the parser.
\<close>

theorem unparsable_body_is_error:
  assumes "ok res"
  shows "stats_post (settle_post c (Resolved_post res (Json_rejected err)) endTime catchTime newId ts s) =
           (stats_post s)\<lparr>total_post := total_post (stats_post s) + 1,
             error_post := error_post (stats_post s) + 1\<rparr>
         \<and> success_post (stats_post
               (settle_post c (Resolved_post res (Json_rejected err)) endTime catchTime newId ts s))
             = success_post (stats_post s)
         \<and> logs_post (settle_post c (Resolved_post res (Json_rejected err)) endTime catchTime newId ts s) =
           slice (- 50) (logs_post s @
             [\<lparr>id_post = newId, timestamp_post = ts, status_post = Error_post,
               message_post = (case err of ErrorInstance m \<Rightarrow> m | NotAnError \<Rightarrow> ''Network Error''),
               latency_post = Math_round (catchTime - startTime_post c)\<rparr>])"
  using assms
  by (cases err)
     (simp_all add: settle_post_def catch_post_def countError_post_def addLog_def Let_def)

theorem unparsable_body_is_error_witness:
  "ok example_201
   \<and> stats_post (settle_post example_call_post
         (Resolved_post example_201 (Json_rejected (ErrorInstance ''Unexpected token < in JSON'')))
         (2853 / 20) 143 ''u1'' ''10:00:01'' initial_post) =
       \<lparr>total_post = 1, success_post = 0, error_post = 1\<rparr>
   \<and> logs_post (settle_post example_call_post
         (Resolved_post example_201 (Json_rejected (ErrorInstance ''Unexpected token < in JSON'')))
         (2853 / 20) 143 ''u1'' ''10:00:01'' initial_post) =
       [\<lparr>id_post = ''u1'', timestamp_post = ''10:00:01'', status_post = Error_post,
         message_post = ''Unexpected token < in JSON'', latency_post = 43\<rparr>]"
proof -
  have h: "ok example_201"
    by (simp add: ok_def example_201_def)
  show ?thesis
    using h unparsable_body_is_error [OF h, of example_call_post
        "ErrorInstance ''Unexpected token < in JSON''" "2853 / 20" 143 "''u1''" "''10:00:01''"
        initial_post]
    by (simp add: example_call_post_def initial_post_def Math_round_def floor_rat_numeral slice_50)
qed

subsection \<open>The life of a log entry\<close>

lemma tick_ids_append: "tick_ids (es @ es') = tick_ids es @ tick_ids es'"
  by (induction es rule: tick_ids.induct) simp_all

lemma id_resultLog [simp]: "id_Log (resultLog res lat entry) = id_Log entry"
  by (simp add: resultLog_def)

lemma id_errorLog [simp]: "id_Log (errorLog err lat entry) = id_Log entry"
  by (simp add: errorLog_def)

lemma status_resultLog [simp]: "status (resultLog res lat entry) \<noteq> Pending"
  by (simp add: resultLog_def)

lemma status_errorLog [simp]: "status (errorLog err lat entry) \<noteq> Pending"
  by (simp add: errorLog_def)

text \<open>The effect of a settlement on the log, for both outcomes at once.\<close>

lemma logs_settle:
  "\<exists>g. (\<forall>entry. id_Log (g entry) = id_Log entry \<and> status (g entry) \<noteq> Pending
           \<and> timestamp (g entry) = timestamp entry \<and> startTime (g entry) = startTime entry)
     \<and> logs (sendRequest_settle c outcome endTime s) =
         map (\<lambda>entry. if id_Log entry = requestId c then g entry else entry) (logs s)"
proof (cases outcome)
  case (Resolved res)
  show ?thesis
    by (rule exI [of _ "resultLog res (Math_round (endTime - startTime_Call c))"])
       (simp add: Resolved sendRequest_settle_def Let_def, simp add: resultLog_def)
next
  case (Rejected err)
  show ?thesis
    by (rule exI [of _ "errorLog err (Math_round (endTime - startTime_Call c))"])
       (simp add: Rejected sendRequest_settle_def Let_def, simp add: errorLog_def)
qed

lemma inflight_settle [simp]: "inflight (sendRequest_settle c outcome endTime s) = inflight s"
  by (cases outcome) (simp_all add: sendRequest_settle_def Let_def)

lemma distinct_map_eq: "distinct (map f xs) \<Longrightarrow> x \<in> set xs \<Longrightarrow> y \<in> set xs \<Longrightarrow> f x = f y \<Longrightarrow> x = y"
  by (meson distinct_map inj_onD)

lemma fresh_inv_Tick:
  assumes inv: "fresh_inv used s" and fresh: "rid \<notin> set used"
  shows "fresh_inv (used @ [rid]) (sendRequest_dispatch rid now dateNow ts s)"
proof -
  let ?new = "logs s @ [pendingLog rid dateNow ts]"
  let ?k = "length ?new - 200"
  have ids: "set (map id_Log (logs s)) \<subseteq> set used" "set (map requestId (inflight s)) \<subseteq> set used"
    and d: "distinct (map id_Log (logs s))" "distinct (map requestId (inflight s))"
    and settled: "list_all (\<lambda>entry. status entry = Pending \<or> id_Log entry \<notin> set (map requestId (inflight s))) (logs s)"
    using inv by (simp_all add: fresh_inv_def)
  have rid_log: "rid \<notin> set (map id_Log (logs s))" and rid_call: "rid \<notin> set (map requestId (inflight s))"
    using ids fresh by blast+
  have dnew: "distinct (map id_Log ?new)"
    using d(1) rid_log by (simp add: pendingLog_def)
  have sub: "set (drop ?k ?new) \<subseteq> set ?new" by (rule set_drop_subset)
  have 1: "set (map id_Log (drop ?k ?new)) \<subseteq> set (used @ [rid])"
  proof -
    have "set (map id_Log (drop ?k ?new)) \<subseteq> set (map id_Log ?new)"
      using sub by (simp only: set_map image_mono)
    moreover have "set (map id_Log ?new) \<subseteq> set (used @ [rid])"
      using ids(1) by (auto simp: pendingLog_def)
    ultimately show ?thesis by blast
  qed
  have 2: "distinct (map id_Log (drop ?k ?new))"
    using dnew by (simp only: drop_map [symmetric] distinct_drop)
  have 3: "list_all (\<lambda>entry. status entry = Pending \<or>
        id_Log entry \<notin> set (map requestId (inflight s)) \<union> {rid}) (drop ?k ?new)"
  proof -
    have "status entry = Pending \<or> id_Log entry \<notin> set (map requestId (inflight s)) \<union> {rid}"
      if "entry \<in> set ?new" for entry
    proof (cases "entry = pendingLog rid dateNow ts")
      case True
      then show ?thesis by (simp add: pendingLog_def)
    next
      case False
      with that have mem: "entry \<in> set (logs s)" by simp
      then have "id_Log entry \<noteq> rid" using rid_log by auto
      moreover have "status entry = Pending \<or> id_Log entry \<notin> set (map requestId (inflight s))"
        using settled mem by (simp add: list_all_iff)
      ultimately show ?thesis by auto
    qed
    then show ?thesis using sub by (auto simp: list_all_iff)
  qed
  show ?thesis
    using 1 2 3 ids(2) d(2) rid_call
    by (auto simp: fresh_inv_def sendRequest_dispatch_def slice_200)
qed

lemma fresh_inv_Settle:
  assumes inv: "fresh_inv used s" and found: "find (\<lambda>c. callNo c = n) (inflight s) = Some c"
  shows "fresh_inv used
           (sendRequest_settle c outcome endTime
              (s\<lparr>inflight := filter (\<lambda>c. callNo c \<noteq> n) (inflight s)\<rparr>))"
proof -
  let ?s = "s\<lparr>inflight := filter (\<lambda>c. callNo c \<noteq> n) (inflight s)\<rparr>"
  let ?rest = "filter (\<lambda>c. callNo c \<noteq> n) (inflight s)"
  have ids: "set (map id_Log (logs s)) \<subseteq> set used" "set (map requestId (inflight s)) \<subseteq> set used"
    and d: "distinct (map id_Log (logs s))" "distinct (map requestId (inflight s))"
    and settled: "list_all (\<lambda>entry. status entry = Pending \<or> id_Log entry \<notin> set (map requestId (inflight s))) (logs s)"
    using inv by (simp_all add: fresh_inv_def)
  have c: "c \<in> set (inflight s)" "callNo c = n"
    using found by (auto simp: find_Some_iff)
  obtain g where g: "\<And>entry. id_Log (g entry) = id_Log entry"
    and lg: "logs (sendRequest_settle c outcome endTime ?s) =
         map (\<lambda>entry. if id_Log entry = requestId c then g entry else entry) (logs s)"
    using logs_settle [of c outcome endTime ?s] by auto
  have idmap: "map id_Log (logs (sendRequest_settle c outcome endTime ?s)) = map id_Log (logs s)"
    by (simp add: lg g)
  have gone: "requestId c \<notin> set (map requestId ?rest)"
  proof
    assume "requestId c \<in> set (map requestId ?rest)"
    then obtain c' where c': "c' \<in> set (inflight s)" "callNo c' \<noteq> n" "requestId c' = requestId c"
      by auto
    then have "c' = c" using d(2) c(1) by (meson distinct_map_eq)
    then show False using c' c(2) by simp
  qed
  have 3: "list_all (\<lambda>entry. status entry = Pending \<or> id_Log entry \<notin> set (map requestId ?rest))
        (logs (sendRequest_settle c outcome endTime ?s))"
    unfolding lg list_all_iff
  proof
    fix entry'
    assume "entry' \<in> set (map (\<lambda>entry. if id_Log entry = requestId c then g entry else entry) (logs s))"
    then obtain entry where e: "entry \<in> set (logs s)"
      "entry' = (if id_Log entry = requestId c then g entry else entry)" by auto
    show "status entry' = Pending \<or> id_Log entry' \<notin> set (map requestId ?rest)"
    proof (cases "id_Log entry = requestId c")
      case True
      then show ?thesis using e(2) g gone by simp
    next
      case False
      then have "entry' = entry" using e(2) by simp
      moreover have "status entry = Pending \<or> id_Log entry \<notin> set (map requestId (inflight s))"
        using settled e(1) by (simp add: list_all_iff)
      ultimately show ?thesis by auto
    qed
  qed
  have 4: "distinct (map requestId ?rest)" using d(2) by (rule distinct_map_filter)
  have 5: "set (map requestId ?rest) \<subseteq> set used" using ids(2) by auto
  show ?thesis
    unfolding fresh_inv_def idmap inflight_settle using ids(1) d(1) 3 4 5 by simp
qed

lemma fresh_inv_step:
  assumes inv: "fresh_inv (tick_ids es) s" and fresh: "distinct (tick_ids (es @ [e]))"
  shows "fresh_inv (tick_ids (es @ [e])) (step e s)"
proof (cases e)
  case (Tick rid now dateNow ts)
  then have "rid \<notin> set (tick_ids es)" using fresh by (simp add: tick_ids_append)
  from fresh_inv_Tick [OF inv this] inv show ?thesis
    by (auto simp: Tick tick_ids_append fresh_inv_def)
next
  case (Settle n outcome endTime)
  show ?thesis
  proof (cases "find (\<lambda>c. callNo c = n) (inflight s)")
    case None
    then show ?thesis using inv by (simp add: Settle tick_ids_append)
  next
    case (Some c)
    from fresh_inv_Settle [OF inv Some] show ?thesis
      by (simp add: Settle Some tick_ids_append)
  qed
next
  case ToggleRunning
  then show ?thesis using inv by (simp add: tick_ids_append fresh_inv_def toggleRunning_def)
next
  case ClickReset
  then show ?thesis using inv by (simp add: tick_ids_append fresh_inv_def resetStats_def)
next
  case (ChangeInterval parsed)
  then show ?thesis using inv by (simp add: tick_ids_append fresh_inv_def changeInterval_def)
next
  case (SetViewMode m)
  then show ?thesis using inv by (simp add: tick_ids_append fresh_inv_def)
qed

lemma fresh_inv_run:
  "distinct (tick_ids es) \<Longrightarrow> fresh_inv (tick_ids es) (run es initial)"
proof (induction es rule: rev_induct)
  case Nil
  show ?case by (simp add: fresh_inv_def initial_def)
next
  case (snoc e es)
  from snoc.prems have "distinct (tick_ids es)" by (simp add: tick_ids_append)
  then have "fresh_inv (tick_ids es) (run es initial)" by (rule snoc.IH)
  from fresh_inv_step [OF this snoc.prems] show ?case by (simp add: run_append)
qed


lemma lifecycle_same_logs:
  assumes "logs s' = logs s" and "distinct (map id_Log (logs s))"
  shows "(\<forall>old\<in>set (logs s). \<forall>new\<in>set (logs s'). id_Log new = id_Log old \<longrightarrow> evolves e old new)
         \<and> (\<forall>new\<in>set (logs s'). id_Log new \<notin> set (map id_Log (logs s)) \<longrightarrow> created_by e new)"
proof -
  have "new = old" if "old \<in> set (logs s)" "new \<in> set (logs s)" "id_Log new = id_Log old" for old new
    using assms(2) that by (meson distinct_map_eq)
  then show ?thesis using assms(1) by (auto simp: evolves_def)
qed

lemma lifecycle_Tick:
  assumes inv: "fresh_inv used s" and fresh: "rid \<notin> set used"
    and s': "s' = sendRequest_dispatch rid now dateNow ts s"
  shows "(\<forall>old\<in>set (logs s). \<forall>new\<in>set (logs s'). id_Log new = id_Log old \<longrightarrow>
            evolves (Tick rid now dateNow ts) old new)
         \<and> (\<forall>new\<in>set (logs s'). id_Log new \<notin> set (map id_Log (logs s)) \<longrightarrow>
            created_by (Tick rid now dateNow ts) new)"
proof -
  let ?new = "logs s @ [pendingLog rid dateNow ts]"
  have rid_log: "rid \<notin> set (map id_Log (logs s))"
    using inv fresh by (auto simp: fresh_inv_def)
  have d: "distinct (map id_Log ?new)"
    using inv rid_log by (simp add: fresh_inv_def pendingLog_def)
  have "logs s' = drop (length ?new - 200) ?new"
    unfolding s' by (simp add: sendRequest_dispatch_def slice_200)
  then have sub: "set (logs s') \<subseteq> set ?new"
    by (simp only: set_drop_subset)
  have a: "evolves (Tick rid now dateNow ts) old new"
    if "old \<in> set (logs s)" "new \<in> set (logs s')" "id_Log new = id_Log old" for old new
  proof -
    have "old \<in> set ?new" "new \<in> set ?new" using that sub by auto
    with d that(3) have "new = old" by (meson distinct_map_eq)
    then show ?thesis by (simp add: evolves_def)
  qed
  have b: "created_by (Tick rid now dateNow ts) new"
    if "new \<in> set (logs s')" "id_Log new \<notin> set (map id_Log (logs s))" for new
  proof -
    from that(1) sub have "new \<in> set ?new" by auto
    with that(2) show ?thesis by (auto simp: created_by_def)
  qed
  from a b show ?thesis by blast
qed

lemma lifecycle_Settle:
  assumes inv: "fresh_inv used s" and found: "find (\<lambda>c. callNo c = n) (inflight s) = Some c"
    and s': "s' = sendRequest_settle c outcome endTime
                    (s\<lparr>inflight := filter (\<lambda>c. callNo c \<noteq> n) (inflight s)\<rparr>)"
  shows "(\<forall>old\<in>set (logs s). \<forall>new\<in>set (logs s'). id_Log new = id_Log old \<longrightarrow>
            evolves (Settle n outcome endTime) old new)
         \<and> (\<forall>new\<in>set (logs s'). id_Log new \<notin> set (map id_Log (logs s)) \<longrightarrow>
            created_by (Settle n outcome endTime) new)"
proof -
  let ?s = "s\<lparr>inflight := filter (\<lambda>c. callNo c \<noteq> n) (inflight s)\<rparr>"
  have d: "distinct (map id_Log (logs s))"
    and settled: "list_all (\<lambda>entry. status entry = Pending \<or> id_Log entry \<notin> set (map requestId (inflight s))) (logs s)"
    using inv by (simp_all add: fresh_inv_def)
  have c: "c \<in> set (inflight s)"
    using found by (auto simp: find_Some_iff)
  obtain g where g: "\<And>entry. id_Log (g entry) = id_Log entry \<and> status (g entry) \<noteq> Pending
           \<and> timestamp (g entry) = timestamp entry \<and> startTime (g entry) = startTime entry"
    and lg: "logs s' = map (\<lambda>entry. if id_Log entry = requestId c then g entry else entry) (logs s)"
    using logs_settle [of c outcome endTime ?s] unfolding s' by auto
  let ?h = "\<lambda>entry. if id_Log entry = requestId c then g entry else entry"
  have idh: "id_Log (?h entry) = id_Log entry" for entry by (simp add: g)
  have a: "evolves (Settle n outcome endTime) old new"
    if "old \<in> set (logs s)" "new \<in> set (logs s')" "id_Log new = id_Log old" for old new
  proof -
    from that(2) obtain x where x: "x \<in> set (logs s)" "new = ?h x" unfolding lg by auto
    then have "id_Log x = id_Log old" using that(3) idh [of x] by simp
    with d x(1) that(1) have "x = old" by (meson distinct_map_eq)
    then have new: "new = ?h old" using x(2) by simp
    show ?thesis
    proof (cases "status old = Pending")
      case True
      have "status (g old) \<in> {Success, Error}"
        using g [of old] by (cases "status (g old)") simp_all
      then show ?thesis using True new g [of old] by (simp add: evolves_def)
    next
      case False
      then have "id_Log old \<notin> set (map requestId (inflight s))"
        using settled that(1) by (auto simp: list_all_iff)
      then have "id_Log old \<noteq> requestId c" using c by auto
      then show ?thesis using False new by (simp add: evolves_def)
    qed
  qed
  have b: "created_by (Settle n outcome endTime) new"
    if "new \<in> set (logs s')" "id_Log new \<notin> set (map id_Log (logs s))" for new
  proof -
    from that(1) obtain x where x: "x \<in> set (logs s)" "new = ?h x" unfolding lg by auto
    then have "id_Log new \<in> set (map id_Log (logs s))" using idh [of x] by auto
    with that(2) show ?thesis by simp
  qed
  from a b show ?thesis by blast
qed

lemma lifecycle_step:
  assumes inv: "fresh_inv (tick_ids es) s" and fresh: "distinct (tick_ids (es @ [e]))"
  shows "(\<forall>old\<in>set (logs s). \<forall>new\<in>set (logs (step e s)). id_Log new = id_Log old \<longrightarrow> evolves e old new)
         \<and> (\<forall>new\<in>set (logs (step e s)). id_Log new \<notin> set (map id_Log (logs s)) \<longrightarrow> created_by e new)"
proof -
  have d: "distinct (map id_Log (logs s))" using inv by (simp add: fresh_inv_def)
  show ?thesis
  proof (cases e)
    case (Tick rid now dateNow ts)
    show ?thesis
    proof (cases "isRunning s")
      case True
      have "rid \<notin> set (tick_ids es)" using fresh by (simp add: Tick tick_ids_append)
      from lifecycle_Tick [OF inv this refl, of now dateNow ts] show ?thesis
        by (simp add: Tick True)
    next
      case False
      then have "logs (step e s) = logs s" by (simp add: Tick)
      then show ?thesis using d by (rule lifecycle_same_logs)
    qed
  next
    case (Settle n outcome endTime)
    show ?thesis
    proof (cases "find (\<lambda>c. callNo c = n) (inflight s)")
      case None
      then have "logs (step e s) = logs s" by (simp add: Settle)
      then show ?thesis using d by (rule lifecycle_same_logs)
    next
      case (Some c)
      from lifecycle_Settle [OF inv Some refl, of outcome endTime] show ?thesis
        by (simp add: Settle Some)
    qed
  next
    case ToggleRunning
    then have "logs (step e s) = logs s" by (simp add: toggleRunning_def)
    then show ?thesis using d by (rule lifecycle_same_logs)
  next
    case ClickReset
    show ?thesis
    proof (cases "isRunning s")
      case True
      then have "logs (step e s) = logs s" by (simp add: ClickReset)
      then show ?thesis using d by (rule lifecycle_same_logs)
    next
      case False
      then show ?thesis by (simp add: ClickReset resetStats_def)
    qed
  next
    case (ChangeInterval parsed)
    then have "logs (step e s) = logs s" by (simp add: changeInterval_def)
    then show ?thesis using d by (rule lifecycle_same_logs)
  next
    case (SetViewMode m)
    then have "logs (step e s) = logs s" by simp
    then show ?thesis using d by (rule lifecycle_same_logs)
  qed
qed



subsection \<open>Three requests that settle in any order\<close>


lemma permutations_of_three:
  assumes "mset js = mset [a, b, c]"
  shows "js \<in> {[a, b, c], [a, c, b], [b, a, c], [b, c, a], [c, a, b], [c, b, a]}"
proof -
  from assms have "length js = 3" by (metis length_Cons list.size(3) numeral_3_eq_3 size_mset)
  then obtain x y z where js: "js = [x, y, z]"
    by (metis length_0_conv length_Suc_conv numeral_3_eq_3)
  from assms show ?thesis unfolding js
    by (auto simp: add_eq_conv_ex)
qed

lemma logs_settle_eq:
  "logs (sendRequest_settle c outcome endTime s) =
     map (\<lambda>entry. if id_Log entry = requestId c
            then settleLog outcome (Math_round (endTime - startTime_Call c)) entry else entry)
       (logs s)"
  by (cases outcome) (simp_all add: sendRequest_settle_def settleLog_def Let_def)

lemma stats_settle_eq:
  "stats (sendRequest_settle c outcome endTime s) =
     (stats s)\<lparr>total_Stat := total_Stat (stats s) + 1,
       success := success (stats s) + (if succeeded outcome then 1 else 0),
       error := error (stats s) + (if succeeded outcome then 0 else 1),
       totalLatency := totalLatency (stats s) + Math_round (endTime - startTime_Call c)\<rparr>"
  by (cases outcome)
     (simp_all add: sendRequest_settle_def succeeded_def countSuccess_def countError_def Let_def)

lemma settleLog_pending:
  "settleLog outcome lat (pendingLog rid dateNow ts) = terminalLog rid dateNow ts outcome lat"
  by (cases outcome) (simp_all add: settleLog_def terminalLog_def pendingLog_def resultLog_def errorLog_def)

lemma id_pendingLog [simp]: "id_Log (pendingLog rid dateNow ts) = rid"
  by (simp add: pendingLog_def)

lemma find_old_calls:
  "\<forall>c\<in>set old. callNo c < n \<Longrightarrow> n \<le> k \<Longrightarrow>
   find (\<lambda>c. callNo c = k) (old @ ys) = find (\<lambda>c. callNo c = k) ys"
  by (induction old) auto

lemma filter_old_calls:
  "\<forall>c\<in>set old. callNo c < n \<Longrightarrow> n \<le> k \<Longrightarrow> filter (\<lambda>c. callNo c \<noteq> k) old = old"
  by (induction old) auto

lemma map_old_entries:
  "r \<notin> set (map id_Log old) \<Longrightarrow>
   map (\<lambda>entry. if id_Log entry = r then f entry else entry) old = old"
  by (induction old) auto

lemma slice_200_twice: "slice (- 200) (slice (- 200) xs @ ys) = slice (- 200) (xs @ ys)"
proof (cases "length xs \<le> 200")
  case True
  then show ?thesis by (simp add: slice_200)
next
  case False
  then have "drop (length xs + length ys - 200) (xs @ ys) = drop (length ys) (drop (length xs - 200) xs @ ys)"
    by (simp add: add.commute)
  with False show ?thesis by (simp add: slice_200)
qed

lemma three_ticks:
  assumes "isRunning s"
  shows "run [Tick r0 t0 d0 ts0, Tick r1 t1 d1 ts1, Tick r2 t2 d2 ts2] s =
     s\<lparr>logs := drop (length (logs s) + 3 - 200) (logs s) @
          [pendingLog r0 d0 ts0, pendingLog r1 d1 ts1, pendingLog r2 d2 ts2],
       inflight := inflight s @
          [\<lparr>callNo = nextCall s, requestId = r0, startTime_Call = t0, timestamp_Call = ts0\<rparr>,
           \<lparr>callNo = nextCall s + 1, requestId = r1, startTime_Call = t1, timestamp_Call = ts1\<rparr>,
           \<lparr>callNo = nextCall s + 2, requestId = r2, startTime_Call = t2, timestamp_Call = ts2\<rparr>],
       nextCall := nextCall s + 3\<rparr>"
proof -
  have "slice (- 200) (slice (- 200) (slice (- 200) (logs s @ [a]) @ [b]) @ [c]) =
      drop (length (logs s) + 3 - 200) (logs s) @ [a, b, c]" for a b c
  proof -
    have "slice (- 200) (slice (- 200) (slice (- 200) (logs s @ [a]) @ [b]) @ [c]) =
        slice (- 200) (logs s @ [a, b, c])"
      using slice_200_twice [of "logs s @ [a]" "[b]"] slice_200_twice [of "logs s @ [a, b]" "[c]"]
      by simp
    then show ?thesis by (simp add: slice_200)
  qed
  then show ?thesis using assms by (simp add: sendRequest_dispatch_def)
qed


lemma id_settleLog [simp]: "id_Log (settleLog outcome lat entry) = id_Log entry"
  by (cases outcome) (simp_all add: settleLog_def resultLog_def errorLog_def)

lemma id_terminalLog [simp]: "id_Log (terminalLog rid dateNow ts outcome lat) = rid"
  by (cases outcome) (simp_all add: terminalLog_def)

lemma three_requests_dashboard:
  assumes running: "isRunning s"
    and bound: "\<forall>c\<in>set (inflight s). callNo c < nextCall s"
    and ids: "distinct (map (\<lambda>j. uuid (req j)) [0, 1, 2])"
    and fresh: "set (map (\<lambda>j. uuid (req j)) [0, 1, 2]) \<inter> set (map id_Log (logs s)) = {}"
    and perm: "mset js = mset [0, 1, 2]"
  shows "logs (three_requests req js s) =
           drop (length (logs s) + 3 - 200) (logs s) @ map (\<lambda>j. terminal_entry (req j)) [0, 1, 2]
         \<and> total_Stat (stats (three_requests req js s)) = total_Stat (stats s) + 3
         \<and> success (stats (three_requests req js s)) =
             success (stats s) + length (filter (\<lambda>j. succeeded (result (req j))) [0, 1, 2])
         \<and> error (stats (three_requests req js s)) =
             error (stats s) + length (filter (\<lambda>j. \<not> succeeded (result (req j))) [0, 1, 2])
         \<and> totalLatency (stats (three_requests req js s)) =
             totalLatency (stats s)
               + (\<Sum>j\<leftarrow>[0, 1, 2]. Math_round (perfEnd (req j) - perfStart (req j)))"
proof -
  define old where "old = drop (length (logs s) + 3 - 200) (logs s)"
  let ?call = "\<lambda>j. \<lparr>callNo = nextCall s + j, requestId = uuid (req j),
    startTime_Call = perfStart (req j), timestamp_Call = stamp (req j)\<rparr>"
  let ?pending = "\<lambda>j. pendingLog (uuid (req j)) (dateStart (req j)) (stamp (req j))"
  define X where "X = run (map (\<lambda>j. Tick (uuid (req j)) (perfStart (req j)) (dateStart (req j))
    (stamp (req j))) [0, 1, 2]) s"
  have X: "X = s\<lparr>logs := old @ [?pending 0, ?pending 1, ?pending 2],
       inflight := inflight s @ [?call 0, ?call 1, ?call 2], nextCall := nextCall s + 3\<rparr>"
    unfolding X_def old_def using three_ticks [OF running] by simp
  have X_logs: "logs X = old @ [?pending 0, ?pending 1, ?pending 2]"
    and X_inflight: "inflight X = inflight s @ [?call 0, ?call 1, ?call 2]"
    and X_stats: "stats X = stats s"
    by (simp_all add: X)
  have start: "three_requests req ks s =
      run (map (\<lambda>j. Settle (nextCall s + j) (result (req j)) (perfEnd (req j))) ks) X" for ks
    by (simp only: three_requests_def run_append X_def)
  have old: "uuid (req 0) \<notin> set (map id_Log old)"
    "uuid (req (Suc 0)) \<notin> set (map id_Log old)"
    "uuid (req 2) \<notin> set (map id_Log old)"
    using fresh set_drop_subset [of "length (logs s) + 3 - 200" "logs s"]
    unfolding old_def by auto
  have ne: "uuid (req 0) \<noteq> uuid (req (Suc 0))" "uuid (req (Suc 0)) \<noteq> uuid (req 0)"
    "uuid (req 0) \<noteq> uuid (req 2)" "uuid (req 2) \<noteq> uuid (req 0)"
    "uuid (req (Suc 0)) \<noteq> uuid (req 2)" "uuid (req 2) \<noteq> uuid (req (Suc 0))"
    using ids by auto
  note rules = ne start X_logs X_inflight X_stats logs_settle_eq
    stats_settle_eq settleLog_pending terminal_entry_def
    find_old_calls [OF bound] filter_old_calls [OF bound] map_old_entries [OF old(1)]
    map_old_entries [OF old(2)] map_old_entries [OF old(3)]
  from permutations_of_three [OF perm]
  consider "js = [0, 1, 2]" | "js = [0, 2, 1]" | "js = [1, 0, 2]" | "js = [1, 2, 0]"
    | "js = [2, 0, 1]" | "js = [2, 1, 0]" by auto
  then show ?thesis
  proof cases
    case 1
    show ?thesis unfolding 1 old_def [symmetric] by (simp add: rules del: map_map)
  next
    case 2
    show ?thesis unfolding 2 old_def [symmetric] by (simp add: rules del: map_map)
  next
    case 3
    show ?thesis unfolding 3 old_def [symmetric] by (simp add: rules del: map_map)
  next
    case 4
    show ?thesis unfolding 4 old_def [symmetric] by (simp add: rules del: map_map)
  next
    case 5
    show ?thesis unfolding 5 old_def [symmetric] by (simp add: rules del: map_map)
  next
    case 6
    show ?thesis unfolding 6 old_def [symmetric] by (simp add: rules del: map_map)
  qed
qed


lemma inflight_settle_post [simp]:
  "inflight_post (settle_post c outcome endTime catchTime newId ts s) = inflight_post s"
  by (simp add: settle_post_def catch_post_def addLog_def countSuccess_post_def
        countError_post_def Let_def split: Outcome_post.splits Json.splits)

lemma logs_settle_post_eq:
  "logs_post (settle_post c outcome endTime catchTime newId ts s) =
     slice (- 50) (logs_post s @
       [terminalLog_post (startTime_post c) outcome endTime catchTime newId ts])"
  by (simp add: settle_post_def catch_post_def addLog_def countSuccess_post_def
        countError_post_def terminalLog_post_def Let_def split: Outcome_post.splits Json.splits)

lemma stats_settle_post_eq:
  "\<not> null_body outcome \<Longrightarrow>
   stats_post (settle_post c outcome endTime catchTime newId ts s) =
     (stats_post s)\<lparr>total_post := total_post (stats_post s) + 1,
       success_post := success_post (stats_post s) + (if succeeded_post outcome then 1 else 0),
       error_post := error_post (stats_post s) + (if succeeded_post outcome then 0 else 1)\<rparr>"
  by (simp add: settle_post_def catch_post_def addLog_def countSuccess_post_def
        countError_post_def null_body_def succeeded_post_def Let_def
      split: Outcome_post.splits Json.splits)

lemma find_old_calls_post:
  "\<forall>c\<in>set old. callNo_post c < n \<Longrightarrow> n \<le> k \<Longrightarrow>
   find (\<lambda>c. callNo_post c = k) (old @ ys) = find (\<lambda>c. callNo_post c = k) ys"
  by (induction old) auto

lemma filter_old_calls_post:
  "\<forall>c\<in>set old. callNo_post c < n \<Longrightarrow> n \<le> k \<Longrightarrow>
   filter (\<lambda>c. callNo_post c \<noteq> k) old = old"
  by (induction old) auto

lemma slice_50_twice: "slice (- 50) (slice (- 50) xs @ ys) = slice (- 50) (xs @ ys)"
proof (cases "length xs \<le> 50")
  case True
  then show ?thesis by (simp add: slice_50)
next
  case False
  then have "drop (length xs + length ys - 50) (xs @ ys) =
      drop (length ys) (drop (length xs - 50) xs @ ys)"
    by (simp add: add.commute)
  with False show ?thesis by (simp add: slice_50)
qed

lemma slice_50_thrice:
  "slice (- 50) (slice (- 50) (slice (- 50) (xs @ [a]) @ [b]) @ [c]) =
     drop (length xs + 3 - 50) xs @ [a, b, c]"
proof -
  have "slice (- 50) (slice (- 50) (slice (- 50) (xs @ [a]) @ [b]) @ [c]) =
      slice (- 50) (xs @ [a, b, c])"
    using slice_50_twice [of "xs @ [a]" "[b]"] slice_50_twice [of "xs @ [a, b]" "[c]"]
    by simp
  then show ?thesis by (simp add: slice_50)
qed

lemma three_requests_in_post:
  assumes running: "isRunning_post s"
    and bound: "\<forall>c\<in>set (inflight_post s). callNo_post c < nextCall_post s"
    and perm: "mset js = mset [0, 1, 2]"
    and body: "\<not> null_body (result_post (req 0))" "\<not> null_body (result_post (req 1))"
      "\<not> null_body (result_post (req 2))"
  shows "logs_post (three_requests_post req js s) =
           drop (length (logs_post s) + 3 - 50) (logs_post s)
             @ map (\<lambda>j. terminal_entry_post (req j)) js
         \<and> total_post (stats_post (three_requests_post req js s)) = total_post (stats_post s) + 3
         \<and> success_post (stats_post (three_requests_post req js s)) =
             success_post (stats_post s)
               + length (filter (\<lambda>j. succeeded_post (result_post (req j))) [0, 1, 2])
         \<and> error_post (stats_post (three_requests_post req js s)) =
             error_post (stats_post s)
               + length (filter (\<lambda>j. \<not> succeeded_post (result_post (req j))) [0, 1, 2])"
proof -
  let ?call = "\<lambda>j. \<lparr>callNo_post = nextCall_post s + j, startTime_post = perfStart_post (req j)\<rparr>"
  define X where "X = run_post (map (\<lambda>j. Tick_post (perfStart_post (req j))) [0, 1, 2]) s"
  have X: "X = s\<lparr>inflight_post := inflight_post s @ [?call 0, ?call 1, ?call 2],
       nextCall_post := nextCall_post s + 3\<rparr>"
    unfolding X_def using running by (simp add: dispatch_post_def)
  have X_logs: "logs_post X = logs_post s"
    and X_inflight: "inflight_post X = inflight_post s @ [?call 0, ?call 1, ?call 2]"
    and X_stats: "stats_post X = stats_post s"
    by (simp_all add: X)
  have start: "three_requests_post req ks s =
      run_post (map (\<lambda>j. Settle_post (nextCall_post s + j) (result_post (req j))
        (perfEnd_post (req j)) (perfCatch_post (req j)) (uuid_post (req j)) (stamp_post (req j))) ks) X"
    for ks
    by (simp only: three_requests_post_def run_post_append X_def)
  have body': "\<not> null_body (result_post (req (Suc 0)))" using body(2) by simp
  note rules = start X_logs X_inflight X_stats logs_settle_post_eq
    stats_settle_post_eq [OF body(1)] stats_settle_post_eq [OF body'] stats_settle_post_eq [OF body(3)]
    terminal_entry_post_def slice_50_thrice
    find_old_calls_post [OF bound] filter_old_calls_post [OF bound]
  from permutations_of_three [OF perm]
  consider "js = [0, 1, 2]" | "js = [0, 2, 1]" | "js = [1, 0, 2]" | "js = [1, 2, 0]"
    | "js = [2, 0, 1]" | "js = [2, 1, 0]" by auto
  then show ?thesis
  proof cases
    case 1
    show ?thesis unfolding 1 by (simp add: rules)
  next
    case 2
    show ?thesis unfolding 2 by (simp add: rules)
  next
    case 3
    show ?thesis unfolding 3 by (simp add: rules)
  next
    case 4
    show ?thesis unfolding 4 by (simp add: rules)
  next
    case 5
    show ?thesis unfolding 5 by (simp add: rules)
  next
    case 6
    show ?thesis unfolding 6 by (simp add: rules)
  qed
qed

lemma callNo_bound_step:
  "\<forall>c\<in>set (inflight s). callNo c < nextCall s \<Longrightarrow>
   \<forall>c\<in>set (inflight (step e s)). callNo c < nextCall (step e s)"
proof (cases e)
  case (Settle n outcome endTime)
  assume "\<forall>c\<in>set (inflight s). callNo c < nextCall s"
  moreover have "nextCall (sendRequest_settle c outcome endTime s') = nextCall s'" for c s'
    by (cases outcome) (simp_all add: sendRequest_settle_def Let_def)
  ultimately show ?thesis by (auto simp: Settle split: option.splits)
qed (auto simp: sendRequest_dispatch_def toggleRunning_def resetStats_def changeInterval_def
       less_Suc_eq)

lemma callNo_bound_run:
  "\<forall>c\<in>set (inflight s). callNo c < nextCall s \<Longrightarrow>
   \<forall>c\<in>set (inflight (run es s)). callNo c < nextCall (run es s)"
proof (induction es arbitrary: s)
  case Nil
  then show ?case by simp
next
  case (Cons e es)
  from Cons.IH [OF callNo_bound_step [OF Cons.prems, of e]] show ?case by simp
qed

lemma callNo_bound_step_post:
  "\<forall>c\<in>set (inflight_post s). callNo_post c < nextCall_post s \<Longrightarrow>
   \<forall>c\<in>set (inflight_post (step_post e s)). callNo_post c < nextCall_post (step_post e s)"
proof (cases e)
  case (Settle_post n outcome endTime catchTime newId ts)
  assume "\<forall>c\<in>set (inflight_post s). callNo_post c < nextCall_post s"
  moreover have "nextCall_post (settle_post c outcome endTime catchTime newId ts s') =
      nextCall_post s'" for c s'
    by (simp add: settle_post_def catch_post_def addLog_def countSuccess_post_def
          countError_post_def Let_def split: Outcome_post.splits Json.splits)
  ultimately show ?thesis by (auto simp: Settle_post split: option.splits)
qed (auto simp: dispatch_post_def toggleRunning_post_def resetStats_post_def
       changeInterval_post_def less_Suc_eq)

lemma callNo_bound_run_post:
  "\<forall>c\<in>set (inflight_post s). callNo_post c < nextCall_post s \<Longrightarrow>
   \<forall>c\<in>set (inflight_post (run_post es s)). callNo_post c < nextCall_post (run_post es s)"
proof (induction es arbitrary: s)
  case Nil
  then show ?case by simp
next
  case (Cons e es)
  from Cons.IH [OF callNo_bound_step_post [OF Cons.prems, of e]] show ?case by simp
qed

text \<open>
  Claim C2, refuted as stated: in the POST component the log is not in the order in
  which the requests were sent. Three requests are sent at 100, 110 and 120 ms and
  settle with latencies of 90, 25 and 80 ms, the second one first. The log lists the
  latencies 25, 90, 80: the order of settlement.
\<close>

theorem post_log_in_settlement_order:
  "map latency_post
     (logs_post (three_requests_post example_req_post [1, 0, 2]
        (run_post [ToggleRunning_post] initial_post))) = [25, 90, 80]
   \<and> map (\<lambda>j. Math_round (perfEnd_post (example_req_post j) - perfStart_post (example_req_post j)))
       [0, 1, 2] = [90, 25, 80]"
  by (simp add: three_requests_post_def example_req_post_def initial_post_def
        toggleRunning_post_def dispatch_post_def settle_post_def catch_post_def addLog_def
        countSuccess_post_def countError_post_def example_201_def example_500_def ok_def
        Math_round_def floor_rat_numeral floor_rat_unit slice_50 Let_def)

text \<open>
  Claim C2, amended. The dashboard is running, after any sequence of events; three
  requests with identifiers that differ from each other and from those in the log are
  sent and then settle in any order \<open>js\<close>. Afterwards the log is the old log (cut at
  the front to the cap) followed by the three entries in the order of sending, each in
  the terminal state of its own outcome and with its own latency; \<open>total\<close> has grown
  by 3, \<open>success\<close> and \<open>error\<close> by the numbers of requests that succeeded and
  failed, the total latency by the sum of the three latencies. In the POST component,
  under the same conditions, the three entries follow the old log in the order of
  settlement, each with its own latency, and the counters have grown in the same way;
  this is stated for responses whose body is not \<^verbatim>\<open>null\<close>.
\<close>

theorem three_requests_settle_in_any_order:
  assumes "isRunning (run es initial)"
    and "distinct (map (\<lambda>j. uuid (req j)) [0, 1, 2])"
    and "set (map (\<lambda>j. uuid (req j)) [0, 1, 2]) \<inter> set (map id_Log (logs (run es initial))) = {}"
    and "mset js = mset [0, 1, 2]"
    and "isRunning_post (run_post es' initial_post)"
    and "\<not> null_body (result_post (req' 0))" and "\<not> null_body (result_post (req' 1))"
    and "\<not> null_body (result_post (req' 2))"
  shows "logs (three_requests req js (run es initial)) =
           drop (length (logs (run es initial)) + 3 - 200) (logs (run es initial))
             @ map (\<lambda>j. terminal_entry (req j)) [0, 1, 2]
         \<and> total_Stat (stats (three_requests req js (run es initial))) =
             total_Stat (stats (run es initial)) + 3
         \<and> success (stats (three_requests req js (run es initial))) =
             success (stats (run es initial))
               + length (filter (\<lambda>j. succeeded (result (req j))) [0, 1, 2])
         \<and> error (stats (three_requests req js (run es initial))) =
             error (stats (run es initial))
               + length (filter (\<lambda>j. \<not> succeeded (result (req j))) [0, 1, 2])
         \<and> totalLatency (stats (three_requests req js (run es initial))) =
             totalLatency (stats (run es initial))
               + (\<Sum>j\<leftarrow>[0, 1, 2]. Math_round (perfEnd (req j) - perfStart (req j)))
         \<and> logs_post (three_requests_post req' js (run_post es' initial_post)) =
             drop (length (logs_post (run_post es' initial_post)) + 3 - 50)
               (logs_post (run_post es' initial_post))
               @ map (\<lambda>j. terminal_entry_post (req' j)) js
         \<and> total_post (stats_post (three_requests_post req' js (run_post es' initial_post))) =
             total_post (stats_post (run_post es' initial_post)) + 3
         \<and> success_post (stats_post (three_requests_post req' js (run_post es' initial_post))) =
             success_post (stats_post (run_post es' initial_post))
               + length (filter (\<lambda>j. succeeded_post (result_post (req' j))) [0, 1, 2])
         \<and> error_post (stats_post (three_requests_post req' js (run_post es' initial_post))) =
             error_post (stats_post (run_post es' initial_post))
               + length (filter (\<lambda>j. \<not> succeeded_post (result_post (req' j))) [0, 1, 2])"
proof -
  have bound: "\<forall>c\<in>set (inflight (run es initial)). callNo c < nextCall (run es initial)"
    by (rule callNo_bound_run) (simp add: initial_def)
  have bound': "\<forall>c\<in>set (inflight_post (run_post es' initial_post)).
      callNo_post c < nextCall_post (run_post es' initial_post)"
    by (rule callNo_bound_run_post) (simp add: initial_post_def)
  from three_requests_dashboard [OF assms(1) bound assms(2) assms(3) assms(4)]
    three_requests_in_post [OF assms(5) bound' assms(4) assms(6) assms(7) assms(8)]
  show ?thesis by (simp only: simp_thms)
qed

theorem three_requests_settle_in_any_order_witness:
  "isRunning (run [ToggleRunning] initial)
   \<and> distinct (map (\<lambda>j. uuid (example_req j)) [0, 1, 2])
   \<and> mset [1, 0, 2] = mset [0, 1, 2 :: nat]
   \<and> isRunning_post (run_post [ToggleRunning_post] initial_post)
   \<and> map id_Log (logs (three_requests example_req [1, 0, 2] (run [ToggleRunning] initial))) =
       [''r0'', ''r1'', ''r2'']
   \<and> map status (logs (three_requests example_req [1, 0, 2] (run [ToggleRunning] initial))) =
       [Error, Success, Error]
   \<and> map latency (logs (three_requests example_req [1, 0, 2] (run [ToggleRunning] initial))) =
       [Some 90, Some 25, Some 80]
   \<and> stats (three_requests example_req [1, 0, 2] (run [ToggleRunning] initial)) =
       \<lparr>total_Stat = 3, success = 1, error = 2, totalLatency = 195\<rparr>
   \<and> map latency_post (logs_post (three_requests_post example_req_post [1, 0, 2]
         (run_post [ToggleRunning_post] initial_post))) = [25, 90, 80]
   \<and> stats_post (three_requests_post example_req_post [1, 0, 2]
         (run_post [ToggleRunning_post] initial_post)) =
       \<lparr>total_post = 3, success_post = 1, error_post = 2\<rparr>"
proof -
  have r: "isRunning (run [ToggleRunning] initial)"
    by (simp add: toggleRunning_def initial_def)
  have d: "distinct (map (\<lambda>j. uuid (example_req j)) [0, 1, 2])"
    by (simp add: example_req_def)
  have f: "set (map (\<lambda>j. uuid (example_req j)) [0, 1, 2])
      \<inter> set (map id_Log (logs (run [ToggleRunning] initial))) = {}"
    by (simp add: toggleRunning_def initial_def)
  have p: "mset [1, 0, 2] = mset [0, 1, 2 :: nat]"
    by simp
  have r': "isRunning_post (run_post [ToggleRunning_post] initial_post)"
    by (simp add: toggleRunning_post_def initial_post_def)
  have n: "\<not> null_body (result_post (example_req_post 0))"
    "\<not> null_body (result_post (example_req_post 1))"
    "\<not> null_body (result_post (example_req_post 2))"
    by (simp_all add: null_body_def example_req_post_def)
  have s: "stats (run [ToggleRunning] initial) =
      \<lparr>total_Stat = 0, success = 0, error = 0, totalLatency = 0\<rparr>"
    "logs (run [ToggleRunning] initial) = []"
    "stats_post (run_post [ToggleRunning_post] initial_post) =
      \<lparr>total_post = 0, success_post = 0, error_post = 0\<rparr>"
    "logs_post (run_post [ToggleRunning_post] initial_post) = []"
    by (simp_all add: toggleRunning_def initial_def toggleRunning_post_def initial_post_def)
  have eq: "x = \<lparr>total_Stat = total_Stat x, success = success x, error = error x,
      totalLatency = totalLatency x\<rparr>" for x :: Stat
    by simp
  have eq': "y = \<lparr>total_post = total_post y, success_post = success_post y,
      error_post = error_post y\<rparr>" for y :: Stat_post
    by simp
  define T where "T = three_requests example_req [1, 0, 2] (run [ToggleRunning] initial)"
  define T' where "T' = three_requests_post example_req_post [1, 0, 2]
    (run_post [ToggleRunning_post] initial_post)"
  note th = three_requests_settle_in_any_order [OF r d f p r' n, unfolded s, folded T_def T'_def]
  note ex = example_req_def example_req_post_def succeeded_def succeeded_post_def
    example_200_def example_201_def example_500_def ok_def Math_round_def
    floor_rat_numeral floor_rat_unit
  have k: "length (filter (\<lambda>j. succeeded (result (example_req j))) [0, 1, 2]) = 1"
    "length (filter (\<lambda>j. \<not> succeeded (result (example_req j))) [0, 1, 2]) = 2"
    "(\<Sum>j\<leftarrow>[0, 1, 2]. Math_round (perfEnd (example_req j) - perfStart (example_req j))) = 195"
    "length (filter (\<lambda>j. succeeded_post (result_post (example_req_post j))) [0, 1, 2]) = 1"
    "length (filter (\<lambda>j. \<not> succeeded_post (result_post (example_req_post j))) [0, 1, 2]) = 2"
    by (simp_all add: ex)
  have "logs T = map (\<lambda>j. terminal_entry (example_req j)) [0, 1, 2]"
    "total_Stat (stats T) = 3" "success (stats T) = 1" "error (stats T) = 2"
    "totalLatency (stats T) = 195"
    "logs_post T' = map (\<lambda>j. terminal_entry_post (example_req_post j)) [1, 0, 2]"
    "total_post (stats_post T') = 3" "success_post (stats_post T') = 1"
    "error_post (stats_post T') = 2"
    using th unfolding k by simp_all
  note c = this [unfolded T_def T'_def]
  have t: "map id_Log (map (\<lambda>j. terminal_entry (example_req j)) [0, 1, 2]) = [''r0'', ''r1'', ''r2'']"
    "map status (map (\<lambda>j. terminal_entry (example_req j)) [0, 1, 2]) = [Error, Success, Error]"
    "map latency (map (\<lambda>j. terminal_entry (example_req j)) [0, 1, 2]) = [Some 90, Some 25, Some 80]"
    "map latency_post (map (\<lambda>j. terminal_entry_post (example_req_post j)) [1, 0, 2]) = [25, 90, 80]"
    by (simp_all add: terminal_entry_def terminalLog_def terminal_entry_post_def
          terminalLog_post_def ex)
  show ?thesis
    using r d p r' c t
      eq [of "stats (three_requests example_req [1, 0, 2] (run [ToggleRunning] initial))"]
      eq' [of "stats_post (three_requests_post example_req_post [1, 0, 2]
         (run_post [ToggleRunning_post] initial_post))"]
    by (simp only: simp_thms)
qed

end
